theory Spec2Isabelle
  imports Main
begin

section \<open>The node store of \<open>list_pool\<close>\<close>

text \<open>
  The class \<open>list_pool<Value, Index>\<close> of \<open>list_pool.hpp\<close> keeps every node of every list
  in one \<open>std::vector<Node>\<close> and links nodes by 1-based positions in that vector.
  \<open>Index\<close> defaults to \<open>std::size_t\<close>; it is modelled by \<open>nat\<close>, the vector's length being
  far below the range of the type. The one place where the source wraps around is
  \<open>node(0)\<close>, which indexes the vector at \<open>0 - 1\<close>: that read is out of bounds and is
  modelled as such, like every other read outside the vector.
\<close>

record 'v Node =
  node_value :: 'v
  node_next :: nat

record 'v list_pool =
  pool :: "'v Node list"
  free_node_list :: nat

text \<open>
  The two exceptions of the source are both \<open>std::invalid_argument\<close> (the
  specification's InvalidHandle). A member function either returns a result and leaves a
  pool state, throws and leaves a pool state, or reads the vector out of bounds, which is
  undefined behaviour in C++ and leaves nothing to speak of. Allocation in
  \<open>emplace_back\<close> is taken to succeed.
\<close>

datatype error = invalid_argument

datatype ('a, 'v) outcome =
  Returns 'a "'v list_pool"
| Throws error "'v list_pool"
| Undefined

definition pool_size :: "'v list_pool \<Rightarrow> nat" where
  "pool_size p = length (pool p)"

definition pool_end :: nat where
  "pool_end = 0"

definition new_list :: nat where
  "new_list = pool_end"

definition is_empty :: "nat \<Rightarrow> bool" where
  "is_empty head \<longleftrightarrow> pool_end = head"

definition list_pool_init :: "'v list_pool" where
  "list_pool_init = \<lparr>pool = [], free_node_list = new_list\<rparr>"

text \<open>\<open>node(index)\<close> is \<open>pool[index - 1]\<close>, unchecked: \<open>None\<close> is the out-of-bounds read.\<close>

definition node :: "'v list_pool \<Rightarrow> nat \<Rightarrow> 'v Node option" where
  "node p index =
     (if 0 < index \<and> index \<le> length (pool p) then Some (pool p ! (index - 1)) else None)"

text \<open>Writing through the reference \<open>Node&\<close> that \<open>node(index)\<close> returned.\<close>

definition set_node :: "'v list_pool \<Rightarrow> nat \<Rightarrow> 'v Node \<Rightarrow> 'v list_pool" where
  "set_node p index n = p\<lparr>pool := (pool p)[index - 1 := n]\<rparr>"

definition check_index1 :: "'v list_pool \<Rightarrow> nat \<Rightarrow> error option" where
  "check_index1 p index = (if index > pool_size p then Some invalid_argument else None)"

definition check_index2 :: "'v list_pool \<Rightarrow> nat \<Rightarrow> error option" where
  "check_index2 p index =
     (if is_empty index then Some invalid_argument else check_index1 p index)"

text \<open>
  \<open>value(index)\<close> and \<open>next(index)\<close> return references; the const overloads call the
  non-const ones. Reading and assigning through the reference are two functions here.
\<close>

definition value_read :: "'v list_pool \<Rightarrow> nat \<Rightarrow> ('v, 'v) outcome" where
  "value_read p index =
     (case check_index2 p index of
        Some e \<Rightarrow> Throws e p
      | None \<Rightarrow> (case node p index of
                   None \<Rightarrow> Undefined
                 | Some n \<Rightarrow> Returns (node_value n) p))"

definition value_write :: "'v list_pool \<Rightarrow> nat \<Rightarrow> 'v \<Rightarrow> (unit, 'v) outcome" where
  "value_write p index v =
     (case check_index2 p index of
        Some e \<Rightarrow> Throws e p
      | None \<Rightarrow> (case node p index of
                   None \<Rightarrow> Undefined
                 | Some n \<Rightarrow> Returns () (set_node p index (n\<lparr>node_value := v\<rparr>))))"

definition next_read :: "'v list_pool \<Rightarrow> nat \<Rightarrow> (nat, 'v) outcome" where
  "next_read p index =
     (case check_index2 p index of
        Some e \<Rightarrow> Throws e p
      | None \<Rightarrow> (case node p index of
                   None \<Rightarrow> Undefined
                 | Some n \<Rightarrow> Returns (node_next n) p))"

definition next_write :: "'v list_pool \<Rightarrow> nat \<Rightarrow> nat \<Rightarrow> (unit, 'v) outcome" where
  "next_write p index x =
     (case check_index2 p index of
        Some e \<Rightarrow> Throws e p
      | None \<Rightarrow> (case node p index of
                   None \<Rightarrow> Undefined
                 | Some n \<Rightarrow> Returns () (set_node p index (n\<lparr>node_next := x\<rparr>))))"

text \<open>
  \<open>get_tail\<close> loops until it meets a node whose \<open>next\<close> is the end index. It checks
  nothing, and on a cyclic chain it never returns: \<open>None\<close> is that case.
\<close>

partial_function (option) get_tail :: "'v list_pool \<Rightarrow> nat \<Rightarrow> (nat, 'v) outcome option" where
  "get_tail p index =
     (case node p index of
        None \<Rightarrow> Some Undefined
      | Some n \<Rightarrow>
          if is_empty (node_next n) then Some (Returns index p)
          else get_tail p (node_next n))"

declare get_tail.simps [code]

definition emplace_back :: "'v list_pool \<Rightarrow> 'v \<Rightarrow> nat \<Rightarrow> 'v list_pool" where
  "emplace_back p v nx = p\<lparr>pool := pool p @ [\<lparr>node_value = v, node_next = nx\<rparr>]\<rparr>"

definition fpush_front :: "'v list_pool \<Rightarrow> 'v \<Rightarrow> nat \<Rightarrow> (nat, 'v) outcome" where
  "fpush_front p v head =
     (case check_index1 p head of
        Some e \<Rightarrow> Throws e p
      | None \<Rightarrow>
          if is_empty (free_node_list p) then
            (let p1 = emplace_back p v head in Returns (pool_size p1) p1)
          else
            (let newhead = free_node_list p in
             case node p newhead of
               None \<Rightarrow> Undefined
             | Some n \<Rightarrow>
                 Returns newhead
                   (set_node (p\<lparr>free_node_list := node_next n\<rparr>) newhead
                      \<lparr>node_value = v, node_next = head\<rparr>)))"

definition fpush_back :: "'v list_pool \<Rightarrow> 'v \<Rightarrow> nat \<Rightarrow> (nat, 'v) outcome option" where
  "fpush_back p v head =
     (if is_empty head then Some (fpush_front p v head)
      else
        (case get_tail p head of
           None \<Rightarrow> None
         | Some Undefined \<Rightarrow> Some Undefined
         | Some (Throws e q) \<Rightarrow> Some (Throws e q)
         | Some (Returns tail _) \<Rightarrow>
             if is_empty (free_node_list p) then
               (let p1 = emplace_back p v pool_end in
                case next_write p1 tail (pool_size p1) of
                  Undefined \<Rightarrow> Some Undefined
                | Throws e q \<Rightarrow> Some (Throws e q)
                | Returns _ p2 \<Rightarrow> Some (Returns head p2))
             else
               (case next_write p tail (free_node_list p) of
                  Undefined \<Rightarrow> Some Undefined
                | Throws e q \<Rightarrow> Some (Throws e q)
                | Returns _ p1 \<Rightarrow>
                    (let recycled = free_node_list p1 in
                     case node p1 recycled of
                       None \<Rightarrow> Some Undefined
                     | Some n \<Rightarrow>
                         Some (Returns head
                           (set_node (p1\<lparr>free_node_list := node_next n\<rparr>) recycled
                              \<lparr>node_value = v, node_next = pool_end\<rparr>))))))"

definition push_front :: "'v list_pool \<Rightarrow> 'v \<Rightarrow> nat \<Rightarrow> (nat, 'v) outcome" where
  "push_front p v head = fpush_front p v head"

definition push_back :: "'v list_pool \<Rightarrow> 'v \<Rightarrow> nat \<Rightarrow> (nat, 'v) outcome option" where
  "push_back p v head = fpush_back p v head"

definition free :: "'v list_pool \<Rightarrow> nat \<Rightarrow> (nat, 'v) outcome" where
  "free p head =
     (if is_empty head then Returns head p
      else
        (case check_index1 p head of
           Some e \<Rightarrow> Throws e p
         | None \<Rightarrow>
             (case node p head of
                None \<Rightarrow> Undefined
              | Some n \<Rightarrow>
                  Returns (node_next n)
                    ((set_node p head (n\<lparr>node_next := free_node_list p\<rparr>))
                       \<lparr>free_node_list := head\<rparr>))))"

definition free_list :: "'v list_pool \<Rightarrow> nat \<Rightarrow> (nat, 'v) outcome option" where
  "free_list p head =
     (if is_empty head then Some (Returns head p)
      else
        (case check_index1 p head of
           Some e \<Rightarrow> Some (Throws e p)
         | None \<Rightarrow>
             (case get_tail p head of
                None \<Rightarrow> None
              | Some Undefined \<Rightarrow> Some Undefined
              | Some (Throws e q) \<Rightarrow> Some (Throws e q)
              | Some (Returns t _) \<Rightarrow>
                  (case node p t of
                     None \<Rightarrow> Some Undefined
                   | Some n \<Rightarrow>
                       Some (Returns new_list
                         ((set_node p t (n\<lparr>node_next := free_node_list p\<rparr>))
                            \<lparr>free_node_list := head\<rparr>))))))"

section \<open>The traversal cursor\<close>

text \<open>
  \<open>list_pool_iterator::Iter\<close> holds a pointer to its pool and the index \<open>current\<close>. The
  pool it points to is the pool state passed to each function; \<open>pool_ref\<close> stands for the
  pointer's address, which only \<open>operator ==\<close> looks at.
\<close>

record Iter =
  pool_ref :: nat
  current :: nat

definition update :: "'v list_pool \<Rightarrow> Iter \<Rightarrow> (Iter, 'v) outcome" where
  "update p it =
     (if current it \<noteq> 0 then
        (case node p (current it) of
           None \<Rightarrow> Undefined
         | Some n \<Rightarrow> Returns (it\<lparr>current := node_next n\<rparr>) p)
      else Returns it p)"

definition iter_value :: "'v list_pool \<Rightarrow> Iter \<Rightarrow> ('v, 'v) outcome" where
  "iter_value p it =
     (case node p (current it) of
        None \<Rightarrow> Undefined
      | Some n \<Rightarrow> Returns (node_value n) p)"

definition pre_increment :: "'v list_pool \<Rightarrow> Iter \<Rightarrow> (Iter, 'v) outcome" where
  "pre_increment p it = update p it"

text \<open>\<open>operator ++ (int)\<close> returns the copy taken before the update, beside the updated cursor.\<close>

definition post_increment :: "'v list_pool \<Rightarrow> Iter \<Rightarrow> (Iter \<times> Iter, 'v) outcome" where
  "post_increment p it =
     (let copy = it in
      case update p it of
        Returns it' q \<Rightarrow> Returns (copy, it') q
      | Throws e q \<Rightarrow> Throws e q
      | Undefined \<Rightarrow> Undefined)"

definition iter_eq :: "Iter \<Rightarrow> Iter \<Rightarrow> bool" where
  "iter_eq lhs rhs \<longleftrightarrow> pool_ref lhs = pool_ref rhs \<and> current lhs = current rhs"

definition iter_neq :: "Iter \<Rightarrow> Iter \<Rightarrow> bool" where
  "iter_neq lhs rhs \<longleftrightarrow> \<not> iter_eq lhs rhs"

definition iter_begin :: "nat \<Rightarrow> nat \<Rightarrow> Iter" where
  "iter_begin self index = \<lparr>pool_ref = self, current = index\<rparr>"

definition iter_end :: "nat \<Rightarrow> nat \<Rightarrow> Iter" where
  "iter_end self index = \<lparr>pool_ref = self, current = pool_end\<rparr>"

text \<open>
  Traversing a list is the loop
  \<^verbatim>\<open>for (auto it = pool.begin(head); it != pool.end(head); ++it) out.push_back(*it);\<close>
  over the cursor. On a cyclic chain it never ends, so the loop is a partial function.
\<close>

partial_function (option) traverse ::
  "'v list_pool \<Rightarrow> Iter \<Rightarrow> Iter \<Rightarrow> 'v list \<Rightarrow> ('v list, 'v) outcome option" where
  "traverse p it stop acc =
     (if iter_neq it stop then
        (case iter_value p it of
           Undefined \<Rightarrow> Some Undefined
         | Throws e q \<Rightarrow> Some (Throws e q)
         | Returns v _ \<Rightarrow>
             (case pre_increment p it of
                Undefined \<Rightarrow> Some Undefined
              | Throws e q \<Rightarrow> Some (Throws e q)
              | Returns it' _ \<Rightarrow> traverse p it' stop (acc @ [v])))
      else Some (Returns acc p))"

declare traverse.simps [code]

definition traverse_list :: "nat \<Rightarrow> 'v list_pool \<Rightarrow> nat \<Rightarrow> ('v list, 'v) outcome option" where
  "traverse_list self p head = traverse p (iter_begin self head) (iter_end self head) []"

section \<open>Chains of nodes\<close>

text \<open>
  \<open>path p h as z\<close>: following \<open>next\<close> from the handle \<open>h\<close> visits exactly the nodes \<open>as\<close>,
  each inside the vector, and then arrives at \<open>z\<close>. A chain is a path to the end index:
  the nodes of a list, head first.
\<close>

fun path :: "'v list_pool \<Rightarrow> nat \<Rightarrow> nat list \<Rightarrow> nat \<Rightarrow> bool" where
  "path p h [] z \<longleftrightarrow> h = z"
| "path p h (a # as) z \<longleftrightarrow>
     h = a \<and> (case node p a of None \<Rightarrow> False | Some n \<Rightarrow> path p (node_next n) as z)"

definition chain :: "'v list_pool \<Rightarrow> nat \<Rightarrow> nat list \<Rightarrow> bool" where
  "chain p h as \<longleftrightarrow> path p h as pool_end"

text \<open>
  The nodes met by following \<open>next\<close> from \<open>h\<close> for at most \<open>k\<close> steps, stopping at the end
  index or outside the vector. A pool of \<open>n\<close> nodes shows every node that can be reached
  within \<open>n\<close> steps, also when the links run in a cycle.
\<close>

fun walk :: "nat \<Rightarrow> 'v list_pool \<Rightarrow> nat \<Rightarrow> nat list" where
  "walk 0 p h = []"
| "walk (Suc k) p h =
     (case node p h of None \<Rightarrow> [] | Some n \<Rightarrow> h # walk k p (node_next n))"

definition reachable :: "'v list_pool \<Rightarrow> nat \<Rightarrow> nat set" where
  "reachable p h = set (walk (pool_size p) p h)"

definition free_members :: "'v list_pool \<Rightarrow> nat set" where
  "free_members p = reachable p (free_node_list p)"

section \<open>Clients of the pool\<close>

text \<open>
  The mutating calls of the public interface. The pool keeps no record of the handles its
  callers hold, so a client state pairs the pool with the set of heads of the lists the
  caller holds: an insertion or a removal hands back the new head of the list it was given,
  and \<open>free_list\<close> gives the list up. A call that throws leaves the client where it was;
  undefined behaviour and a call that never returns leave no state (\<open>None\<close>).
\<close>

datatype 'v call =
  Push_front 'v nat
| Push_back 'v nat
| Free nat
| Free_list nat
| Value_write nat 'v
| Next_write nat nat

type_synonym 'v client = "'v list_pool \<times> nat set"

definition hand_over :: "nat set \<Rightarrow> nat \<Rightarrow> nat \<Rightarrow> nat set" where
  "hand_over L old new = (L - {old}) \<union> (if is_empty new then {} else {new})"

fun exec :: "'v client \<Rightarrow> 'v call \<Rightarrow> 'v client option" where
  "exec (p, L) (Push_front v h) =
     (case push_front p v h of
        Returns h' p' \<Rightarrow> Some (p', hand_over L h h')
      | Throws e p' \<Rightarrow> Some (p', L)
      | Undefined \<Rightarrow> None)"
| "exec (p, L) (Push_back v h) =
     (case push_back p v h of
        Some (Returns h' p') \<Rightarrow> Some (p', hand_over L h h')
      | Some (Throws e p') \<Rightarrow> Some (p', L)
      | Some Undefined \<Rightarrow> None
      | None \<Rightarrow> None)"
| "exec (p, L) (Free h) =
     (case free p h of
        Returns h' p' \<Rightarrow> Some (p', hand_over L h h')
      | Throws e p' \<Rightarrow> Some (p', L)
      | Undefined \<Rightarrow> None)"
| "exec (p, L) (Free_list h) =
     (case free_list p h of
        Some (Returns h' p') \<Rightarrow> Some (p', hand_over L h h')
      | Some (Throws e p') \<Rightarrow> Some (p', L)
      | Some Undefined \<Rightarrow> None
      | None \<Rightarrow> None)"
| "exec (p, L) (Value_write h v) =
     (case value_write p h v of
        Returns _ p' \<Rightarrow> Some (p', L)
      | Throws e p' \<Rightarrow> Some (p', L)
      | Undefined \<Rightarrow> None)"
| "exec (p, L) (Next_write h x) =
     (case next_write p h x of
        Returns _ p' \<Rightarrow> Some (p', L)
      | Throws e p' \<Rightarrow> Some (p', L)
      | Undefined \<Rightarrow> None)"

fun run :: "'v client \<Rightarrow> 'v call list \<Rightarrow> 'v client option" where
  "run s [] = Some s"
| "run s (c # cs) = (case exec s c of None \<Rightarrow> None | Some s' \<Rightarrow> run s' cs)"

text \<open>
  A disciplined call passes to an insertion or a removal only the end index or the head
  of a list the caller holds, and never assigns through \<open>next\<close>.
\<close>

fun disciplined :: "nat set \<Rightarrow> 'v call \<Rightarrow> bool" where
  "disciplined L (Push_front v h) \<longleftrightarrow> is_empty h \<or> h \<in> L"
| "disciplined L (Push_back v h) \<longleftrightarrow> is_empty h \<or> h \<in> L"
| "disciplined L (Free h) \<longleftrightarrow> is_empty h \<or> h \<in> L"
| "disciplined L (Free_list h) \<longleftrightarrow> is_empty h \<or> h \<in> L"
| "disciplined L (Value_write h v) \<longleftrightarrow> True"
| "disciplined L (Next_write h x) \<longleftrightarrow> False"

fun disciplined_run :: "'v client \<Rightarrow> 'v call list \<Rightarrow> bool" where
  "disciplined_run s [] \<longleftrightarrow> True"
| "disciplined_run s (c # cs) \<longleftrightarrow>
     disciplined (snd s) c \<and>
     (case exec s c of None \<Rightarrow> True | Some s' \<Rightarrow> disciplined_run s' cs)"

text \<open>
  Every index of the store is on a list the caller holds or on the free chain, and not on
  both.
\<close>

definition partitioned :: "'v client \<Rightarrow> bool" where
  "partitioned s \<longleftrightarrow>
     (\<forall>i \<in> {1 .. pool_size (fst s)}.
        (\<exists>h \<in> snd s. i \<in> reachable (fst s) h) \<noteq> (i \<in> free_members (fst s)))"

text \<open>Successive \<open>push_back\<close> calls, each on the head the previous one returned.\<close>

fun push_backs :: "'v list_pool \<Rightarrow> 'v list \<Rightarrow> nat \<Rightarrow> (nat, 'v) outcome option" where
  "push_backs p [] head = Some (Returns head p)"
| "push_backs p (v # vs) head =
     (case push_back p v head of
        Some (Returns h p') \<Rightarrow> push_backs p' vs h
      | r \<Rightarrow> r)"

text \<open>The value stored at an index inside the vector.\<close>

definition value_at :: "'v list_pool \<Rightarrow> nat \<Rightarrow> 'v" where
  "value_at p a = node_value (pool p ! (a - 1))"

text \<open>
  A handle is proper when following \<open>next\<close> from it ends at the end index without leaving
  the vector. A client state is consistent when the free chain and every list the caller
  holds are proper, no two of them share a node, and together they cover the store.
\<close>

definition proper :: "'v list_pool \<Rightarrow> nat \<Rightarrow> bool" where
  "proper p h \<longleftrightarrow> chain p h (walk (pool_size p) p h)"

definition consistent :: "'v client \<Rightarrow> bool" where
  "consistent s \<longleftrightarrow>
     (let p = fst s; L = snd s in
      pool_end \<notin> L \<and> proper p (free_node_list p) \<and>
      (\<forall>h \<in> L. proper p h \<and> reachable p h \<inter> free_members p = {}) \<and>
      (\<forall>h \<in> L. \<forall>g \<in> L. h \<noteq> g \<longrightarrow> reachable p h \<inter> reachable p g = {}) \<and>
      (\<forall>i \<in> {1 .. pool_size p}. i \<in> free_members p \<or> (\<exists>h \<in> L. i \<in> reachable p h)))"

section \<open>Basic facts about the store\<close>

lemma pool_size_set_node [simp]: "pool_size (set_node p i n) = pool_size p"
  by (simp add: pool_size_def set_node_def)

lemma free_node_list_set_node [simp]: "free_node_list (set_node p i n) = free_node_list p"
  by (simp add: set_node_def)

lemma node_free_node_list_update [simp]: "node (p\<lparr>free_node_list := f\<rparr>) i = node p i"
  by (simp add: node_def)

lemma pool_size_free_node_list_update [simp]:
  "pool_size (p\<lparr>free_node_list := f\<rparr>) = pool_size p"
  by (simp add: pool_size_def)

lemma node_None_iff: "node p i = None \<longleftrightarrow> i = 0 \<or> pool_size p < i"
  by (auto simp: node_def pool_size_def)

lemma node_Some_range: "node p i = Some n \<Longrightarrow> 0 < i \<and> i \<le> pool_size p"
  by (auto simp: node_def pool_size_def split: if_splits)

lemma node_in_range: "0 < i \<Longrightarrow> i \<le> pool_size p \<Longrightarrow> node p i = Some (pool p ! (i - 1))"
  by (simp add: node_def pool_size_def)

lemma node_set_node:
  "0 < i \<Longrightarrow> i \<le> pool_size p \<Longrightarrow>
     node (set_node p i n) j = (if j = i then Some n else node p j)"
  by (auto simp: node_def set_node_def pool_size_def nth_list_update)

lemma pool_size_emplace_back [simp]: "pool_size (emplace_back p v nx) = Suc (pool_size p)"
  by (simp add: pool_size_def emplace_back_def)

lemma free_node_list_emplace_back [simp]:
  "free_node_list (emplace_back p v nx) = free_node_list p"
  by (simp add: emplace_back_def)

lemma node_emplace_back:
  "node (emplace_back p v nx) j =
     (if j = Suc (pool_size p) then Some \<lparr>node_value = v, node_next = nx\<rparr> else node p j)"
  by (auto simp: node_def emplace_back_def pool_size_def nth_append)

lemma check_index2_throws:
  "check_index2 p h = Some invalid_argument \<longleftrightarrow> h = pool_end \<or> pool_size p < h"
  by (auto simp: check_index2_def check_index1_def is_empty_def)

lemma check_index2_passes: "check_index2 p h = None \<longleftrightarrow> 0 < h \<and> h \<le> pool_size p"
  by (auto simp: check_index2_def check_index1_def is_empty_def pool_end_def)

lemma next_write_in_range:
  "node p t = Some n \<Longrightarrow> next_write p t x = Returns () (set_node p t (n\<lparr>node_next := x\<rparr>))"
  using check_index2_passes [of p t] by (auto simp: next_write_def dest: node_Some_range)

lemma free_in_range:
  assumes "node p head = Some n"
  shows "free p head =
     Returns (node_next n)
       ((set_node p head (n\<lparr>node_next := free_node_list p\<rparr>))\<lparr>free_node_list := head\<rparr>)"
  using assms node_Some_range [OF assms]
  by (simp add: free_def is_empty_def pool_end_def check_index1_def)

section \<open>Handle validation\<close>

text \<open>
  Claim C1 says that \<open>push_back\<close> with a non-sentinel head beyond \<open>size()\<close> throws, as
  \<open>push_front\<close> does. \<open>fpush_front\<close> starts with \<open>check_index1(head)\<close>; \<open>fpush_back\<close> goes
  straight to \<open>get_tail(head)\<close>, whose first step reads \<open>pool[head - 1]\<close> outside the
  vector. On the empty pool with head 1, \<open>push_front\<close> throws and \<open>push_back\<close> has
  undefined behaviour.
\<close>

theorem push_back_out_of_range_unchecked:
  "push_front (list_pool_init :: nat list_pool) 5 1 = Throws invalid_argument list_pool_init \<and>
   push_back (list_pool_init :: nat list_pool) 5 1 = Some Undefined"
  by (simp add: push_front_def push_back_def fpush_front_def fpush_back_def check_index1_def
      pool_size_def list_pool_init_def new_list_def pool_end_def is_empty_def get_tail.simps
      node_def)

text \<open>The same on every pool: no out-of-range head makes \<open>push_back\<close> throw.\<close>

lemma push_back_out_of_range:
  "\<not> is_empty head \<Longrightarrow> pool_size p < head \<Longrightarrow> push_back p v head = Some Undefined"
  by (simp add: push_back_def fpush_back_def get_tail.simps [of p head] node_def pool_size_def)

text \<open>
  Claim C3: \<open>value(h)\<close> and \<open>next(h)\<close>, read or assigned through, throw
  \<open>invalid_argument\<close> when \<open>h\<close> is the end index 0 and when \<open>h > size()\<close>; the pool is
  as it was.
\<close>

theorem invalid_handle_on_access:
  "h = pool_end \<or> pool_size p < h \<Longrightarrow>
     value_read p h = Throws invalid_argument p \<and>
     value_write p h v = Throws invalid_argument p \<and>
     next_read p h = Throws invalid_argument p \<and>
     next_write p h x = Throws invalid_argument p"
  using check_index2_throws [of p h]
  by (simp add: value_read_def value_write_def next_read_def next_write_def)

theorem invalid_handle_on_access_witness:
  "(let p = \<lparr>pool = [\<lparr>node_value = (7::nat), node_next = 0\<rparr>], free_node_list = 0\<rparr> in
     pool_size p < 2 \<and>
     value_read p 0 = Throws invalid_argument p \<and> value_read p 2 = Throws invalid_argument p \<and>
     value_write p 0 9 = Throws invalid_argument p \<and>
     value_write p 2 9 = Throws invalid_argument p \<and>
     next_read p 0 = Throws invalid_argument p \<and> next_read p 2 = Throws invalid_argument p \<and>
     next_write p 0 1 = Throws invalid_argument p \<and>
     next_write p 2 1 = Throws invalid_argument p)"
  using
    invalid_handle_on_access [of 0
      "\<lparr>pool = [\<lparr>node_value = (7::nat), node_next = 0\<rparr>], free_node_list = 0\<rparr>" 9 1]
    invalid_handle_on_access [of 2
      "\<lparr>pool = [\<lparr>node_value = (7::nat), node_next = 0\<rparr>], free_node_list = 0\<rparr>" 9 1]
  by (simp add: pool_end_def pool_size_def)

text \<open>
  Claim C10: for every pool and every handle \<open>h\<close> with \<open>1 \<le> h \<le> size()\<close>, \<open>value(h)\<close>
  and \<open>next(h)\<close> succeed, reading or assigning the node at \<open>h\<close>. The check is a range
  check only: the answer is the same whatever \<open>free_node_list\<close> is, so a handle to a node
  on the free chain is served like a live one.
\<close>

theorem access_in_range_succeeds:
  "0 < h \<and> h \<le> pool_size p \<Longrightarrow>
     (\<exists>n. node p h = Some n \<and>
        value_read p h = Returns (node_value n) p \<and>
        next_read p h = Returns (node_next n) p \<and>
        value_write p h v = Returns () (set_node p h (n\<lparr>node_value := v\<rparr>)) \<and>
        next_write p h x = Returns () (set_node p h (n\<lparr>node_next := x\<rparr>)) \<and>
        value_read (p\<lparr>free_node_list := f\<rparr>) h =
          Returns (node_value n) (p\<lparr>free_node_list := f\<rparr>) \<and>
        next_read (p\<lparr>free_node_list := f\<rparr>) h =
          Returns (node_next n) (p\<lparr>free_node_list := f\<rparr>))"
  using check_index2_passes [of p h] check_index2_passes [of "p\<lparr>free_node_list := f\<rparr>" h]
  by (simp add: value_read_def value_write_def next_read_def next_write_def node_in_range)

theorem access_in_range_succeeds_witness:
  "(let p = \<lparr>pool = [\<lparr>node_value = (7::nat), node_next = 0\<rparr>], free_node_list = 1\<rparr> in
     0 < (1::nat) \<and> 1 \<le> pool_size p \<and> free_members p = {1} \<and>
     value_read p 1 = Returns 7 p \<and> next_read p 1 = Returns 0 p)"
  using access_in_range_succeeds [of 1
      "\<lparr>pool = [\<lparr>node_value = (7::nat), node_next = 0\<rparr>], free_node_list = 1\<rparr>" 0 0 1]
  by (simp add: pool_size_def node_def free_members_def reachable_def)

section \<open>Removing the head of a list\<close>

text \<open>
  Claim C4: \<open>free(head)\<close> with the end index returns it and leaves the pool as it was;
  with a non-sentinel head beyond \<open>size()\<close> it throws \<open>invalid_argument\<close>; with a head
  in \<open>[1, size()]\<close> it returns the old \<open>next\<close> of the head node, whose \<open>next\<close> becomes the
  old head of the free chain while its value stays, \<open>free_node_list\<close> becomes \<open>head\<close>,
  and no other node changes.
\<close>

theorem free_head:
  "(is_empty head \<longrightarrow> free p head = Returns head p) \<and>
   (\<not> is_empty head \<and> pool_size p < head \<longrightarrow> free p head = Throws invalid_argument p) \<and>
   (0 < head \<and> head \<le> pool_size p \<longrightarrow>
      (\<exists>n p'. node p head = Some n \<and> free p head = Returns (node_next n) p' \<and>
         node p' head = Some (n\<lparr>node_next := free_node_list p\<rparr>) \<and>
         free_node_list p' = head \<and>
         pool_size p' = pool_size p \<and>
         (\<forall>j. j \<noteq> head \<longrightarrow> node p' j = node p j)))"
proof (intro conjI impI)
  assume "is_empty head"
  then show "free p head = Returns head p" by (simp add: free_def)
next
  assume "\<not> is_empty head \<and> pool_size p < head"
  then show "free p head = Throws invalid_argument p"
    by (simp add: free_def check_index1_def)
next
  assume r: "0 < head \<and> head \<le> pool_size p"
  then obtain n where n: "node p head = Some n" by (auto simp: node_in_range)
  let ?p' = "(set_node p head (n\<lparr>node_next := free_node_list p\<rparr>))\<lparr>free_node_list := head\<rparr>"
  have "free p head = Returns (node_next n) ?p'" by (rule free_in_range [OF n])
  moreover have "node ?p' head = Some (n\<lparr>node_next := free_node_list p\<rparr>)"
    using r by (simp add: node_set_node)
  moreover have "\<forall>j. j \<noteq> head \<longrightarrow> node ?p' j = node p j"
    using r by (simp add: node_set_node)
  ultimately show "\<exists>n p'. node p head = Some n \<and> free p head = Returns (node_next n) p' \<and>
         node p' head = Some (n\<lparr>node_next := free_node_list p\<rparr>) \<and>
         free_node_list p' = head \<and>
         pool_size p' = pool_size p \<and>
         (\<forall>j. j \<noteq> head \<longrightarrow> node p' j = node p j)"
    using n by (intro exI [of _ n] exI [of _ ?p']) simp
qed

theorem free_head_witness:
  "(let p = \<lparr>pool = [\<lparr>node_value = (7::nat), node_next = 0\<rparr>, \<lparr>node_value = 8, node_next = 1\<rparr>],
              free_node_list = 0\<rparr> in
     is_empty 0 \<and> free p 0 = Returns 0 p \<and>
     \<not> is_empty 3 \<and> pool_size p < 3 \<and> free p 3 = Throws invalid_argument p \<and>
     0 < (2::nat) \<and> 2 \<le> pool_size p \<and>
     (\<exists>n p'. node p 2 = Some n \<and> free p 2 = Returns (node_next n) p' \<and>
         node p' 2 = Some (n\<lparr>node_next := free_node_list p\<rparr>) \<and>
         free_node_list p' = 2 \<and>
         pool_size p' = pool_size p \<and>
         (\<forall>j. j \<noteq> 2 \<longrightarrow> node p' j = node p j)))"
  using
    free_head [of 0 "\<lparr>pool = [\<lparr>node_value = (7::nat), node_next = 0\<rparr>,
      \<lparr>node_value = 8, node_next = 1\<rparr>], free_node_list = 0\<rparr>"]
    free_head [of 3 "\<lparr>pool = [\<lparr>node_value = (7::nat), node_next = 0\<rparr>,
      \<lparr>node_value = 8, node_next = 1\<rparr>], free_node_list = 0\<rparr>"]
    free_head [of 2 "\<lparr>pool = [\<lparr>node_value = (7::nat), node_next = 0\<rparr>,
      \<lparr>node_value = 8, node_next = 1\<rparr>], free_node_list = 0\<rparr>"]
  by (simp add: is_empty_def pool_end_def pool_size_def)

section \<open>The cursor at the end\<close>

text \<open>
  Claim C8: a cursor whose \<open>current\<close> is the end index stays where it is when advanced,
  by either \<open>operator ++\<close>, so advancing it again changes nothing. No node is read: the
  result is the same on every pool, and on a pool with an empty store, where any read of a
  node would be out of bounds, the advance still returns.
\<close>

theorem cursor_at_end_stays:
  "current it = pool_end \<Longrightarrow>
     pre_increment p it = Returns it p \<and>
     post_increment p it = Returns (it, it) p \<and>
     pre_increment (p\<lparr>pool := []\<rparr>) it = Returns it (p\<lparr>pool := []\<rparr>) \<and>
     post_increment (p\<lparr>pool := []\<rparr>) it = Returns (it, it) (p\<lparr>pool := []\<rparr>)"
  by (simp add: pre_increment_def post_increment_def update_def pool_end_def)

theorem cursor_at_end_stays_witness:
  "(let p = \<lparr>pool = [\<lparr>node_value = (7::nat), node_next = 0\<rparr>], free_node_list = 0\<rparr>;
        it = iter_end 0 1 in
     current it = pool_end \<and>
     pre_increment p it = Returns it p \<and>
     post_increment p it = Returns (it, it) p)"
  using cursor_at_end_stays [of "iter_end 0 1"
      "\<lparr>pool = [\<lparr>node_value = (7::nat), node_next = 0\<rparr>], free_node_list = 0\<rparr>"]
  by (simp add: iter_end_def Let_def)

section \<open>Chains and the operations on them\<close>

lemma path_free_node_list_update [simp]: "path (p\<lparr>free_node_list := f\<rparr>) h as z = path p h as z"
  by (induction as arbitrary: h) (auto split: option.splits)

lemma path_append: "path p h (as @ bs) z \<longleftrightarrow> (\<exists>m. path p h as m \<and> path p m bs z)"
  by (induction as arbitrary: h) (auto split: option.splits)

lemma path_frame:
  "path p h as z \<Longrightarrow>
   (\<forall>a \<in> set as. map_option node_next (node p' a) = map_option node_next (node p a)) \<Longrightarrow>
   path p' h as z"
proof (induction as arbitrary: h)
  case Nil
  then show ?case by simp
next
  case (Cons a as)
  from Cons.prems(1) obtain n where n: "h = a" "node p a = Some n" "path p (node_next n) as z"
    by (auto split: option.splits)
  from Cons.prems(2) n(2) obtain n' where n': "node p' a = Some n'" "node_next n' = node_next n"
    by (cases "node p' a") auto
  from Cons.IH [OF n(3)] Cons.prems(2) have "path p' (node_next n) as z" by simp
  with n n' show ?case by simp
qed

lemma path_in_range: "path p h as z \<Longrightarrow> a \<in> set as \<Longrightarrow> node p a \<noteq> None"
  by (induction as arbitrary: h) (auto split: option.splits)

lemma chain_Nil [simp]: "chain p h [] \<longleftrightarrow> h = pool_end"
  by (simp add: chain_def)

lemma chain_end [simp]: "chain p pool_end as \<longleftrightarrow> as = []"
  by (cases as) (auto simp: chain_def node_def pool_end_def)

lemma chain_Cons:
  "chain p h (a # as) \<longleftrightarrow> h = a \<and> (\<exists>n. node p a = Some n \<and> chain p (node_next n) as)"
  by (auto simp: chain_def split: option.splits)

lemma chain_unique: "chain p h as \<Longrightarrow> chain p h bs \<Longrightarrow> as = bs"
proof (induction as arbitrary: h bs)
  case Nil
  then show ?case by simp
next
  case (Cons a as)
  from Cons.prems(1) obtain n where n: "h = a" "node p a = Some n" "chain p (node_next n) as"
    by (auto simp: chain_Cons)
  from n(2) have "a \<noteq> pool_end" by (auto simp: node_def pool_end_def split: if_splits)
  with Cons.prems(2) n(1) obtain bs' where bs: "bs = a # bs'" "chain p (node_next n) bs'"
    using n(2) by (cases bs) (auto simp: chain_Cons)
  with Cons.IH [OF n(3)] show ?case by simp
qed

lemma chain_suffix: "chain p h (as @ a # bs) \<Longrightarrow> chain p a (a # bs)"
  by (auto simp: chain_def path_append)

lemma chain_distinct: "chain p h as \<Longrightarrow> distinct as"
proof (induction as arbitrary: h)
  case Nil
  then show ?case by simp
next
  case (Cons a as)
  from Cons.prems obtain n where n: "h = a" "node p a = Some n" "chain p (node_next n) as"
    by (auto simp: chain_Cons)
  have "a \<notin> set as"
  proof
    assume "a \<in> set as"
    then obtain xs ys where as: "as = xs @ a # ys" by (auto simp: in_set_conv_decomp)
    with n(3) have "chain p a (a # ys)" by (auto dest: chain_suffix)
    moreover from Cons.prems n(1) have "chain p a (a # as)" by simp
    ultimately have "a # ys = a # as" by (rule chain_unique)
    with as show False by simp
  qed
  with Cons.IH [OF n(3)] show ?case by simp
qed

lemma chain_in_range: "chain p h as \<Longrightarrow> a \<in> set as \<Longrightarrow> 0 < a \<and> a \<le> pool_size p"
  using path_in_range [of p h as pool_end a] by (auto simp: chain_def node_None_iff)

lemma chain_length: "chain p h as \<Longrightarrow> length as \<le> pool_size p"
proof -
  assume c: "chain p h as"
  then have "set as \<subseteq> {1 .. pool_size p}" by (auto dest: chain_in_range)
  then have "card (set as) \<le> card {1 .. pool_size p}" by (intro card_mono) auto
  with chain_distinct [OF c] show ?thesis by (simp add: distinct_card)
qed

lemma walk_chain: "chain p h as \<Longrightarrow> length as \<le> k \<Longrightarrow> walk k p h = as"
proof (induction k arbitrary: h as)
  case 0
  then show ?case by simp
next
  case (Suc k)
  show ?case
  proof (cases as)
    case Nil
    with Suc.prems show ?thesis by (simp add: node_def pool_end_def)
  next
    case (Cons a as')
    with Suc.prems obtain n where n: "h = a" "node p a = Some n" "chain p (node_next n) as'"
      by (auto simp: chain_Cons)
    with Suc.IH [OF n(3)] Suc.prems(2) Cons show ?thesis by simp
  qed
qed

lemma reachable_chain: "chain p h as \<Longrightarrow> reachable p h = set as"
  by (simp add: reachable_def walk_chain chain_length)

lemma get_tail_chain:
  "chain p h as \<Longrightarrow> as \<noteq> [] \<Longrightarrow> get_tail p h = Some (Returns (last as) p)"
proof (induction as arbitrary: h)
  case Nil
  then show ?case by simp
next
  case (Cons a as)
  from Cons.prems obtain n where n: "h = a" "node p a = Some n" "chain p (node_next n) as"
    by (auto simp: chain_Cons)
  show ?case
  proof (cases as)
    case Nil
    with n show ?thesis by (simp add: get_tail.simps [of p a] is_empty_def)
  next
    case (Cons b bs)
    with n(3) have "node_next n \<noteq> pool_end" by (auto simp: chain_Cons node_def pool_end_def split: if_splits)
    with Cons.IH [OF n(3)] n Cons show ?thesis
      by (simp add: get_tail.simps [of p a] is_empty_def)
  qed
qed

lemma chain_last:
  "chain p h as \<Longrightarrow> as \<noteq> [] \<Longrightarrow> \<exists>n. node p (last as) = Some n \<and> node_next n = pool_end"
  by (induction as arbitrary: h) (auto simp: chain_Cons)

lemma chain_free_node_list_update [simp]:
  "chain (p\<lparr>free_node_list := f\<rparr>) h as = chain p h as"
  by (simp add: chain_def)

lemma path_set_node_other:
  assumes "path p h as z" "t \<notin> set as" "0 < t"
  shows "path (set_node p t n) h as z"
proof -
  have "node (set_node p t n) a = node p a" if "a \<noteq> t" for a
    using that assms(3) by (auto simp: node_def set_node_def)
  then have
    "\<forall>a \<in> set as. map_option node_next (node (set_node p t n) a) = map_option node_next (node p a)"
    using assms(2) by metis
  with assms(1) show ?thesis by (rule path_frame)
qed

lemma path_emplace_back:
  assumes "path p h as z"
  shows "path (emplace_back p v x) h as z"
proof -
  have "\<forall>a \<in> set as.
      map_option node_next (node (emplace_back p v x) a) = map_option node_next (node p a)"
    using path_in_range [OF assms] by (auto simp: node_emplace_back node_None_iff)
  with assms show ?thesis by (rule path_frame)
qed

lemma chain_set_node_other:
  "chain p h as \<Longrightarrow> t \<notin> set as \<Longrightarrow> 0 < t \<Longrightarrow> chain (set_node p t n) h as"
  by (simp add: chain_def path_set_node_other)

lemma chain_emplace_back: "chain p h as \<Longrightarrow> chain (emplace_back p v x) h as"
  by (simp add: chain_def path_emplace_back)

lemma chain_head: "chain p h as \<Longrightarrow> h \<le> pool_size p"
  by (cases as) (auto simp: chain_Cons pool_end_def dest: node_Some_range)

text \<open>Redirecting the \<open>next\<close> of the last node of a chain makes the chain a path to the new target.\<close>

lemma path_redirect_last:
  assumes "chain p h as" "as \<noteq> []" "node p (last as) = Some n"
  shows "path (set_node p (last as) (n\<lparr>node_next := z\<rparr>)) h as z"
proof -
  let ?t = "last as"
  let ?p' = "set_node p ?t (n\<lparr>node_next := z\<rparr>)"
  have split: "butlast as @ [?t] = as" using assms(2) by simp
  have "distinct (butlast as @ [?t])" using chain_distinct [OF assms(1)] by (simp only: split)
  then have nt: "?t \<notin> set (butlast as)" by simp
  have "path p h (butlast as @ [?t]) pool_end"
    using assms(1) by (simp only: split chain_def)
  then have "path p h (butlast as) ?t" by (auto simp: path_append split: option.splits)
  then have "path ?p' h (butlast as) ?t"
    using nt node_Some_range [OF assms(3)] by (intro path_set_node_other) simp_all
  moreover have "path ?p' ?t [?t] z"
    using node_Some_range [OF assms(3)] by (simp add: node_set_node)
  ultimately have "path ?p' h (butlast as @ [?t]) z" unfolding path_append by blast
  then show ?thesis by (simp only: split)
qed

lemma push_front_fresh:
  "head \<le> pool_size p \<Longrightarrow> free_node_list p = pool_end \<Longrightarrow>
     push_front p v head = Returns (Suc (pool_size p)) (emplace_back p v head)"
  by (simp add: push_front_def fpush_front_def check_index1_def is_empty_def)

lemma push_front_recycle:
  "head \<le> pool_size p \<Longrightarrow> node p (free_node_list p) = Some m \<Longrightarrow>
     push_front p v head =
       Returns (free_node_list p)
         (set_node (p\<lparr>free_node_list := node_next m\<rparr>) (free_node_list p)
            \<lparr>node_value = v, node_next = head\<rparr>)"
  by (auto simp: push_front_def fpush_front_def check_index1_def is_empty_def pool_end_def
      Let_def dest: node_Some_range)

lemma push_back_fresh:
  assumes "get_tail p head = Some (Returns t p)" "\<not> is_empty head" "node p t = Some n"
    "free_node_list p = pool_end"
  shows "push_back p v head =
     Some (Returns head
       (set_node (emplace_back p v pool_end) t (n\<lparr>node_next := Suc (pool_size p)\<rparr>)))"
proof -
  have "node (emplace_back p v pool_end) t = Some n"
    using assms(3) node_Some_range [OF assms(3)] by (simp add: node_emplace_back)
  then show ?thesis
    using assms by (simp add: push_back_def fpush_back_def is_empty_def next_write_in_range)
qed

lemma push_back_recycle:
  assumes "get_tail p head = Some (Returns t p)" "\<not> is_empty head" "node p t = Some n"
    "free_node_list p \<noteq> pool_end"
    "node (set_node p t (n\<lparr>node_next := free_node_list p\<rparr>)) (free_node_list p) = Some m"
  shows "push_back p v head =
     Some (Returns head
       (set_node
          ((set_node p t (n\<lparr>node_next := free_node_list p\<rparr>))\<lparr>free_node_list := node_next m\<rparr>)
          (free_node_list p) \<lparr>node_value = v, node_next = pool_end\<rparr>))"
  using assms
  by (simp add: push_back_def fpush_back_def is_empty_def Let_def
      next_write_in_range [OF assms(3)])

lemma get_tail_Returns:
  assumes "get_tail p h = Some (Returns t q)"
  shows "q = p \<and> (\<exists>n. node p t = Some n \<and> node_next n = pool_end)"
proof -
  have "\<forall>t q. y = Returns t q \<longrightarrow> q = p \<and> (\<exists>n. node p t = Some n \<and> node_next n = pool_end)"
    if "get_tail p h = Some y" for y
    by (rule get_tail.raw_induct
          [where P = "\<lambda>p h y. \<forall>t q. y = Returns t q \<longrightarrow>
             q = p \<and> (\<exists>n. node p t = Some n \<and> node_next n = pool_end)", OF _ that])
      (auto simp: is_empty_def split: option.splits if_splits)
  with assms show ?thesis by blast
qed

text \<open>A node whose \<open>next\<close> is its own index: the loop of \<open>get_tail\<close> never leaves it.\<close>

lemma get_tail_self_loop:
  assumes "node p a = Some n" "node_next n = a"
  shows "get_tail p a = None"
proof (rule ccontr)
  assume "get_tail p a \<noteq> None"
  then obtain y where y: "get_tail p a = Some y" by auto
  have "\<not> (p' = p \<and> h = a)" if "get_tail p' h = Some y'" for p' h y'
  proof (rule get_tail.raw_induct [where P = "\<lambda>p' h y'. \<not> (p' = p \<and> h = a)", OF _ that])
    fix f p' index pa
    assume ih: "\<And>q i y. f q i = Some y \<Longrightarrow> \<not> (q = p \<and> i = a)"
      and step: "(case node p' index of None \<Rightarrow> Some Undefined
         | Some n \<Rightarrow> if is_empty (node_next n) then Some (Returns index p')
                     else f p' (node_next n)) = Some pa"
    show "\<not> (p' = p \<and> index = a)"
    proof
      assume "p' = p \<and> index = a"
      with step assms node_Some_range [OF assms(1)] have "f p a = Some pa"
        by (simp add: is_empty_def pool_end_def)
      with ih show False by blast
    qed
  qed
  with y show False by blast
qed

lemma chain_frame:
  "chain p h as \<Longrightarrow> (\<forall>a \<in> set as. node p' a = node p a) \<Longrightarrow> chain p' h as"
  unfolding chain_def by (rule path_frame) auto

lemma push_front_chains:
  assumes fs: "chain p (free_node_list p) fs" and as: "chain p h as"
    and disj: "set as \<inter> set fs = {}"
  shows "\<exists>r p'. push_front p v h = Returns r p' \<and>
     chain p' r (r # as) \<and> chain p' (free_node_list p') (tl fs) \<and>
     node p' r = Some \<lparr>node_value = v, node_next = h\<rparr> \<and>
     (fs = [] \<longrightarrow> r = Suc (pool_size p) \<and> pool_size p' = Suc (pool_size p)) \<and>
     (fs \<noteq> [] \<longrightarrow> r = hd fs \<and> pool_size p' = pool_size p) \<and>
     (\<forall>j. j \<noteq> r \<longrightarrow> node p j \<noteq> None \<longrightarrow> node p' j = node p j)"
proof (cases fs)
  case Nil
  with fs have f0: "free_node_list p = pool_end" by simp
  let ?p' = "emplace_back p v h"
  let ?r = "Suc (pool_size p)"
  have "push_front p v h = Returns ?r ?p'"
    using chain_head [OF as] f0 by (rule push_front_fresh)
  moreover have "chain ?p' ?r (?r # as)"
    using chain_emplace_back [OF as] by (simp add: chain_Cons node_emplace_back)
  moreover have "chain ?p' (free_node_list ?p') (tl fs)" using Nil f0 by simp
  moreover have "\<forall>j. j \<noteq> ?r \<longrightarrow> node p j \<noteq> None \<longrightarrow> node ?p' j = node p j"
    by (simp add: node_emplace_back)
  ultimately show ?thesis using Nil by (simp add: node_emplace_back)
next
  case (Cons f fs')
  with fs obtain m where m: "free_node_list p = f" "node p f = Some m"
    "chain p (node_next m) fs'"
    by (auto simp: chain_Cons)
  let ?q = "p\<lparr>free_node_list := node_next m\<rparr>"
  let ?p' = "set_node ?q f \<lparr>node_value = v, node_next = h\<rparr>"
  from chain_distinct [OF fs] Cons have f1: "f \<notin> set fs'" by simp
  from disj Cons have f2: "f \<notin> set as" by auto
  have r: "0 < f \<and> f \<le> pool_size p" using node_Some_range [OF m(2)] .
  have "push_front p v h = Returns f ?p'"
    using push_front_recycle [of h p m v] chain_head [OF as] m by simp
  moreover have "chain ?q h as" using as by simp
  then have "chain ?p' h as" using f2 r by (simp add: chain_set_node_other)
  then have "chain ?p' f (f # as)"
    using r by (simp add: chain_Cons node_set_node)
  moreover have "chain ?q (node_next m) fs'" using m(3) by simp
  then have "chain ?p' (node_next m) fs'" using f1 r by (simp add: chain_set_node_other)
  then have "chain ?p' (free_node_list ?p') (tl fs)"
    using Cons by simp
  moreover have "\<forall>j. j \<noteq> f \<longrightarrow> node p j \<noteq> None \<longrightarrow> node ?p' j = node p j"
    using r by (simp add: node_set_node)
  moreover have "node ?p' f = Some \<lparr>node_value = v, node_next = h\<rparr>"
    using r by (simp add: node_set_node)
  ultimately show ?thesis using Cons by simp
qed

lemma push_back_free_chain:
  assumes gt: "get_tail p h = Some (Returns t p)" and ne: "\<not> is_empty h"
    and fs: "chain p (free_node_list p) fs" and t: "t \<notin> set fs"
  shows "\<exists>p'. push_back p v h = Some (Returns h p') \<and>
     chain p' (free_node_list p') (tl fs) \<and>
     (fs = [] \<longrightarrow> pool_size p' = Suc (pool_size p)) \<and>
     (fs \<noteq> [] \<longrightarrow> pool_size p' = pool_size p)"
proof -
  from get_tail_Returns [OF gt] obtain n where n: "node p t = Some n" by blast
  show ?thesis
  proof (cases fs)
    case Nil
    with fs have f0: "free_node_list p = pool_end" by simp
    from push_back_fresh [OF gt ne n f0, of v] Nil f0 show ?thesis by simp
  next
    case (Cons f fs')
    with fs obtain m where m: "free_node_list p = f" "node p f = Some m"
      "chain p (node_next m) fs'"
      by (auto simp: chain_Cons)
    from chain_distinct [OF fs] Cons have f1: "f \<notin> set fs'" by simp
    from t Cons have tf: "t \<noteq> f" "t \<notin> set fs'" by auto
    let ?p1 = "set_node p t (n\<lparr>node_next := free_node_list p\<rparr>)"
    let ?p' = "set_node (?p1\<lparr>free_node_list := node_next m\<rparr>) (free_node_list p)
                 \<lparr>node_value = v, node_next = pool_end\<rparr>"
    have f0: "free_node_list p \<noteq> pool_end"
      using m(1,2) by (auto simp: pool_end_def dest: node_Some_range)
    have "node ?p1 (free_node_list p) = Some m"
      using node_Some_range [OF n] m tf by (simp add: node_set_node)
    from push_back_recycle [OF gt ne n f0 this]
    have "push_back p v h = Some (Returns h ?p')" .
    moreover have "chain ?p1 (node_next m) fs'"
      using m(3) tf(2) node_Some_range [OF n] by (simp add: chain_set_node_other)
    then have "chain ?p' (node_next m) fs'"
      using f1 m(1) f0 by (simp add: chain_set_node_other pool_end_def)
    ultimately show ?thesis using Cons by simp
  qed
qed

lemma push_back_chains:
  assumes fs: "chain p (free_node_list p) fs" and as: "chain p h as" and ne: "as \<noteq> []"
    and disj: "set as \<inter> set fs = {}"
  shows "\<exists>new p'. push_back p v h = Some (Returns h p') \<and>
     chain p' h (as @ [new]) \<and> chain p' (free_node_list p') (tl fs) \<and>
     node p' new = Some \<lparr>node_value = v, node_next = pool_end\<rparr> \<and>
     (fs = [] \<longrightarrow> new = Suc (pool_size p) \<and> pool_size p' = Suc (pool_size p)) \<and>
     (fs \<noteq> [] \<longrightarrow> new = hd fs \<and> pool_size p' = pool_size p) \<and>
     (\<forall>j. j \<noteq> new \<longrightarrow> j \<noteq> last as \<longrightarrow> node p j \<noteq> None \<longrightarrow> node p' j = node p j) \<and>
     (\<exists>n. node p (last as) = Some n \<and> node p' (last as) = Some (n\<lparr>node_next := new\<rparr>))"
proof -
  let ?t = "last as"
  have gt: "get_tail p h = Some (Returns ?t p)" using as ne by (rule get_tail_chain)
  from chain_last [OF as ne] obtain n where n: "node p ?t = Some n" by blast
  have hne: "\<not> is_empty h" using as ne by (auto simp: is_empty_def)
  have tr: "0 < ?t \<and> ?t \<le> pool_size p" using node_Some_range [OF n] .
  show ?thesis
  proof (cases fs)
    case Nil
    with fs have f0: "free_node_list p = pool_end" by simp
    let ?N = "Suc (pool_size p)"
    let ?p1 = "emplace_back p v pool_end"
    let ?p' = "set_node ?p1 ?t (n\<lparr>node_next := ?N\<rparr>)"
    have pb: "push_back p v h = Some (Returns h ?p')" by (rule push_back_fresh [OF gt hne n f0])
    have n1: "node ?p1 ?t = Some n" using n tr by (simp add: node_emplace_back)
    have "path ?p' h as ?N"
      using chain_emplace_back [OF as] ne n1 by (rule path_redirect_last)
    moreover have nN: "node ?p' ?N = Some \<lparr>node_value = v, node_next = pool_end\<rparr>"
      using tr by (simp add: node_set_node node_emplace_back)
    then have "path ?p' ?N [?N] pool_end" by simp
    ultimately have "chain ?p' h (as @ [?N])" unfolding chain_def path_append by blast
    moreover have "\<forall>j. j \<noteq> ?N \<longrightarrow> j \<noteq> ?t \<longrightarrow> node p j \<noteq> None \<longrightarrow> node ?p' j = node p j"
      using tr by (simp add: node_set_node node_emplace_back)
    moreover have "node ?p' ?t = Some (n\<lparr>node_next := ?N\<rparr>)"
      using tr by (simp add: node_set_node)
    ultimately show ?thesis using pb nN n Nil f0
      by (intro exI [of _ ?N] exI [of _ ?p']) simp
  next
    case (Cons f fs')
    with fs obtain m where m: "free_node_list p = f" "node p f = Some m"
      "chain p (node_next m) fs'"
      by (auto simp: chain_Cons)
    from chain_distinct [OF fs] Cons have f1: "f \<notin> set fs'" by simp
    from disj Cons last_in_set [OF ne] have tf: "?t \<noteq> f" "?t \<notin> set fs'" "f \<notin> set as"
      by auto
    have fr: "0 < f \<and> f \<le> pool_size p" using node_Some_range [OF m(2)] .
    let ?p1 = "set_node p ?t (n\<lparr>node_next := f\<rparr>)"
    let ?p' = "set_node (?p1\<lparr>free_node_list := node_next m\<rparr>) f
                 \<lparr>node_value = v, node_next = pool_end\<rparr>"
    have f0: "free_node_list p \<noteq> pool_end" using m(1) fr by (simp add: pool_end_def)
    have "node (set_node p ?t (n\<lparr>node_next := free_node_list p\<rparr>)) (free_node_list p) = Some m"
      using tr m tf by (simp add: node_set_node)
    from push_back_recycle [OF gt hne n f0 this] m(1)
    have pb: "push_back p v h = Some (Returns h ?p')" by simp
    have "path ?p1 h as f" using as ne n by (rule path_redirect_last)
    then have "path (?p1\<lparr>free_node_list := node_next m\<rparr>) h as f" by simp
    then have "path ?p' h as f" using tf(3) fr by (simp add: path_set_node_other)
    moreover have nN: "node ?p' f = Some \<lparr>node_value = v, node_next = pool_end\<rparr>"
      using fr by (simp add: node_set_node)
    then have "path ?p' f [f] pool_end" by simp
    ultimately have c1: "chain ?p' h (as @ [f])" unfolding chain_def path_append by blast
    have "chain ?p1 (node_next m) fs'"
      using m(3) tf(2) tr by (simp add: chain_set_node_other)
    then have c2: "chain ?p' (node_next m) fs'"
      using f1 fr by (simp add: chain_set_node_other)
    have fr1: "\<forall>j. j \<noteq> f \<longrightarrow> j \<noteq> ?t \<longrightarrow> node p j \<noteq> None \<longrightarrow> node ?p' j = node p j"
      using tr fr by (simp add: node_set_node)
    have "node ?p' ?t = Some (n\<lparr>node_next := f\<rparr>)"
      using tr fr tf(1) by (simp add: node_set_node)
    with pb c1 c2 nN fr1 n Cons show ?thesis
      by (intro exI [of _ f] exI [of _ ?p']) simp
  qed
qed

lemma free_chains:
  assumes fs: "chain p (free_node_list p) fs" and as: "chain p h (a # as)"
    and disj: "set (a # as) \<inter> set fs = {}"
  shows "\<exists>n p'. node p h = Some n \<and> free p h = Returns (node_next n) p' \<and>
     chain p' (node_next n) as \<and> chain p' (free_node_list p') (h # fs) \<and>
     pool_size p' = pool_size p \<and>
     (\<forall>j. j \<noteq> h \<longrightarrow> node p' j = node p j)"
proof -
  from as obtain n where n: "h = a" "node p h = Some n" "chain p (node_next n) as"
    by (auto simp: chain_Cons)
  from chain_distinct [OF as] n(1) have h1: "h \<notin> set as" by simp
  from disj n(1) have h2: "h \<notin> set fs" by simp
  have hr: "0 < h \<and> h \<le> pool_size p" using node_Some_range [OF n(2)] .
  let ?p1 = "set_node p h (n\<lparr>node_next := free_node_list p\<rparr>)"
  let ?p' = "?p1\<lparr>free_node_list := h\<rparr>"
  have "free p h = Returns (node_next n) ?p'" by (rule free_in_range [OF n(2)])
  moreover have "chain ?p' (node_next n) as"
    using n(3) h1 hr by (simp add: chain_set_node_other)
  moreover have "chain ?p' (free_node_list p) fs"
    using fs h2 hr by (simp add: chain_set_node_other)
  then have "chain ?p' (free_node_list ?p') (h # fs)"
    using hr by (simp add: chain_Cons node_set_node)
  moreover have "\<forall>j. j \<noteq> h \<longrightarrow> node ?p' j = node p j"
    using hr by (simp add: node_set_node)
  ultimately show ?thesis using n(2) by (intro exI [of _ n] exI [of _ ?p']) simp
qed

lemma free_list_chains:
  assumes as: "chain p h as" and ne: "as \<noteq> []"
  shows "\<exists>n p'. node p (last as) = Some n \<and> free_list p h = Some (Returns pool_end p') \<and>
     path p' h as (free_node_list p) \<and> free_node_list p' = h \<and>
     node p' (last as) = Some (n\<lparr>node_next := free_node_list p\<rparr>) \<and>
     pool_size p' = pool_size p \<and>
     (\<forall>j. j \<noteq> last as \<longrightarrow> node p' j = node p j) \<and>
     (\<forall>fs. chain p (free_node_list p) fs \<longrightarrow> set as \<inter> set fs = {} \<longrightarrow>
        chain p' (free_node_list p') (as @ fs))"
proof -
  let ?t = "last as"
  have gt: "get_tail p h = Some (Returns ?t p)" using as ne by (rule get_tail_chain)
  from chain_last [OF as ne] obtain n where n: "node p ?t = Some n" by blast
  have hne: "\<not> is_empty h" using as ne by (auto simp: is_empty_def)
  have hr: "h \<le> pool_size p" using as by (rule chain_head)
  have tr: "0 < ?t \<and> ?t \<le> pool_size p" using node_Some_range [OF n] .
  let ?p1 = "set_node p ?t (n\<lparr>node_next := free_node_list p\<rparr>)"
  let ?p' = "?p1\<lparr>free_node_list := h\<rparr>"
  have fl: "free_list p h = Some (Returns pool_end ?p')"
    using hne hr gt n by (simp add: free_list_def check_index1_def new_list_def)
  have pth: "path ?p' h as (free_node_list p)"
    using path_redirect_last [OF as ne n, of "free_node_list p"] by simp
  have nt: "node ?p' ?t = Some (n\<lparr>node_next := free_node_list p\<rparr>)"
    using tr by (simp add: node_set_node)
  have fr: "\<forall>j. j \<noteq> ?t \<longrightarrow> node ?p' j = node p j"
    using tr by (simp add: node_set_node)
  have "chain ?p' (free_node_list ?p') (as @ fs)"
    if "chain p (free_node_list p) fs" "set as \<inter> set fs = {}" for fs
  proof -
    from that last_in_set [OF ne] have ntf: "?t \<notin> set fs" by auto
    from tr have t0: "0 < ?t" by simp
    have "chain ?p1 (free_node_list p) fs" using that(1) ntf t0 by (rule chain_set_node_other)
    then have "path ?p' (free_node_list p) fs pool_end" by (simp add: chain_def)
    with pth have "path ?p' h (as @ fs) pool_end" unfolding path_append by blast
    then show ?thesis by (simp add: chain_def)
  qed
  with fl pth nt fr n show ?thesis by (intro exI [of _ n] exI [of _ ?p']) simp
qed

section \<open>Releasing a whole list\<close>

text \<open>
  Claim C6 says that, in every pool state, \<open>free_list\<close> with a valid non-sentinel head
  returns the end index. After \<open>push_front(5, 0)\<close>, \<open>free(1)\<close> and \<open>free(1)\<close> again, node 1
  is its own successor; the head 1 is inside the store, and \<open>free_list(1)\<close> never returns,
  because \<open>get_tail\<close> walks the cycle for ever.
\<close>

theorem free_list_cycle_counterexample:
  "run (list_pool_init, {}) [Push_front (5::nat) 0, Free 1, Free 1] =
     Some (\<lparr>pool = [\<lparr>node_value = 5, node_next = 1\<rparr>], free_node_list = 1\<rparr>, {}) \<and>
   \<not> is_empty 1 \<and>
   1 \<le> pool_size \<lparr>pool = [\<lparr>node_value = (5::nat), node_next = 1\<rparr>], free_node_list = 1\<rparr> \<and>
   free_list \<lparr>pool = [\<lparr>node_value = (5::nat), node_next = 1\<rparr>], free_node_list = 1\<rparr> 1 = None"
proof -
  let ?P = "\<lparr>pool = [\<lparr>node_value = (5::nat), node_next = 1\<rparr>], free_node_list = 1\<rparr>"
  have "get_tail ?P 1 = None"
    by (rule get_tail_self_loop [of _ _ "\<lparr>node_value = 5, node_next = 1\<rparr>"]) (simp_all add: node_def)
  then have "free_list ?P 1 = None"
    by (simp add: free_list_def is_empty_def pool_end_def check_index1_def pool_size_def)
  moreover have "run (list_pool_init, {}) [Push_front (5::nat) 0, Free 1, Free 1] = Some (?P, {})"
    by (simp add: list_pool_init_def new_list_def pool_end_def push_front_def fpush_front_def
        check_index1_def pool_size_def is_empty_def emplace_back_def hand_over_def free_def
        node_def set_node_def)
  ultimately show ?thesis by (simp add: is_empty_def pool_end_def pool_size_def)
qed

text \<open>
  Claim C6 as amended: \<open>free_list(head)\<close> with the end index returns it and leaves the
  pool as it was; with a non-sentinel head beyond \<open>size()\<close> it throws
  \<open>invalid_argument\<close>; with a non-sentinel head from which \<open>next\<close> leads through nodes
  \<open>as\<close> of the store to the end index, it returns the end index, the \<open>next\<close> of the last
  node of \<open>as\<close> becomes the old head of the free chain, \<open>free_node_list\<close> becomes \<open>head\<close>,
  nothing else changes, and so the whole of \<open>as\<close> now leads into the old free chain.
\<close>

theorem free_list_splice:
  "(is_empty head \<longrightarrow> free_list p head = Some (Returns head p)) \<and>
   (\<not> is_empty head \<and> pool_size p < head \<longrightarrow>
      free_list p head = Some (Throws invalid_argument p)) \<and>
   (\<not> is_empty head \<and> chain p head as \<longrightarrow>
      (\<exists>n p'. node p (last as) = Some n \<and>
         free_list p head = Some (Returns pool_end p') \<and>
         path p' head as (free_node_list p) \<and>
         free_node_list p' = head \<and>
         node p' (last as) = Some (n\<lparr>node_next := free_node_list p\<rparr>) \<and>
         pool_size p' = pool_size p \<and>
         (\<forall>j. j \<noteq> last as \<longrightarrow> node p' j = node p j)))"
proof (intro conjI impI)
  assume "is_empty head"
  then show "free_list p head = Some (Returns head p)" by (simp add: free_list_def)
next
  assume "\<not> is_empty head \<and> pool_size p < head"
  then show "free_list p head = Some (Throws invalid_argument p)"
    by (simp add: free_list_def check_index1_def)
next
  assume a: "\<not> is_empty head \<and> chain p head as"
  then have "as \<noteq> []" by (auto simp: is_empty_def)
  with a free_list_chains [of p head as]
  show "\<exists>n p'. node p (last as) = Some n \<and>
         free_list p head = Some (Returns pool_end p') \<and>
         path p' head as (free_node_list p) \<and>
         free_node_list p' = head \<and>
         node p' (last as) = Some (n\<lparr>node_next := free_node_list p\<rparr>) \<and>
         pool_size p' = pool_size p \<and>
         (\<forall>j. j \<noteq> last as \<longrightarrow> node p' j = node p j)"
    by blast
qed

theorem free_list_splice_witness:
  "(let p = \<lparr>pool = [\<lparr>node_value = (7::nat), node_next = 0\<rparr>, \<lparr>node_value = 8, node_next = 1\<rparr>,
                      \<lparr>node_value = 9, node_next = 0\<rparr>], free_node_list = 3\<rparr> in
     is_empty 0 \<and> free_list p 0 = Some (Returns 0 p) \<and>
     \<not> is_empty 4 \<and> pool_size p < 4 \<and> free_list p 4 = Some (Throws invalid_argument p) \<and>
     \<not> is_empty 2 \<and> chain p 2 [2, 1] \<and>
     (\<exists>n p'. node p 1 = Some n \<and>
         free_list p 2 = Some (Returns pool_end p') \<and>
         path p' 2 [2, 1] 3 \<and>
         free_node_list p' = 2 \<and>
         node p' 1 = Some (n\<lparr>node_next := 3\<rparr>) \<and>
         pool_size p' = pool_size p \<and>
         (\<forall>j. j \<noteq> 1 \<longrightarrow> node p' j = node p j)))"
  using
    free_list_splice [of 0 "\<lparr>pool = [\<lparr>node_value = (7::nat), node_next = 0\<rparr>,
      \<lparr>node_value = 8, node_next = 1\<rparr>, \<lparr>node_value = 9, node_next = 0\<rparr>], free_node_list = 3\<rparr>" "[]"]
    free_list_splice [of 4 "\<lparr>pool = [\<lparr>node_value = (7::nat), node_next = 0\<rparr>,
      \<lparr>node_value = 8, node_next = 1\<rparr>, \<lparr>node_value = 9, node_next = 0\<rparr>], free_node_list = 3\<rparr>" "[]"]
    free_list_splice [of 2 "\<lparr>pool = [\<lparr>node_value = (7::nat), node_next = 0\<rparr>,
      \<lparr>node_value = 8, node_next = 1\<rparr>, \<lparr>node_value = 9, node_next = 0\<rparr>], free_node_list = 3\<rparr>" "[2, 1]"]
  by (simp add: is_empty_def pool_end_def pool_size_def chain_def node_def Let_def)

section \<open>Appending at the tail\<close>

lemma push_back_in_range:
  assumes as: "chain p head as" and ne: "\<not> is_empty head"
    and f: "free_node_list p \<le> pool_size p"
  shows "\<exists>p'. push_back p v head = Some (Returns head p') \<and>
     node p' (if is_empty (free_node_list p) then Suc (pool_size p) else free_node_list p) =
       Some \<lparr>node_value = v, node_next = pool_end\<rparr> \<and>
     ((if is_empty (free_node_list p) then Suc (pool_size p) else free_node_list p) \<noteq> last as \<longrightarrow>
        (\<exists>n. node p (last as) = Some n \<and>
           node p' (last as) =
             Some (n\<lparr>node_next :=
               (if is_empty (free_node_list p) then Suc (pool_size p) else free_node_list p)\<rparr>)))"
proof -
  let ?t = "last as"
  from ne as have ane: "as \<noteq> []" by (auto simp: is_empty_def)
  have gt: "get_tail p head = Some (Returns ?t p)" using as ane by (rule get_tail_chain)
  from chain_last [OF as ane] obtain n where n: "node p ?t = Some n" by blast
  have tr: "0 < ?t \<and> ?t \<le> pool_size p" using node_Some_range [OF n] .
  show ?thesis
  proof (cases "is_empty (free_node_list p)")
    case True
    then have f0: "free_node_list p = pool_end" by (simp add: is_empty_def)
    from push_back_fresh [OF gt ne n f0, of v] True n tr show ?thesis
      by (simp add: node_set_node node_emplace_back)
  next
    case False
    let ?f = "free_node_list p"
    from False f have fr: "0 < ?f \<and> ?f \<le> pool_size p" by (simp add: is_empty_def pool_end_def)
    let ?p1 = "set_node p ?t (n\<lparr>node_next := ?f\<rparr>)"
    from fr obtain m where m: "node ?p1 ?f = Some m" by (auto simp: node_in_range)
    from False have f0: "?f \<noteq> pool_end" by (simp add: is_empty_def)
    from push_back_recycle [OF gt ne n f0 m, of v] False n tr fr show ?thesis
      by (simp add: node_set_node)
  qed
qed

text \<open>
  Claim C7 says that \<open>push_back\<close> with a non-sentinel valid head returns that head.
  After \<open>push_front(5, 0)\<close> and the assignment \<open>next(1) = 1\<close>, the head 1 is inside the
  store and \<open>push_back(6, 1)\<close> never returns: \<open>get_tail\<close> walks the cycle for ever.
\<close>

theorem push_back_cycle_counterexample:
  "run (list_pool_init, {}) [Push_front (5::nat) 0, Next_write 1 1] =
     Some (\<lparr>pool = [\<lparr>node_value = 5, node_next = 1\<rparr>], free_node_list = 0\<rparr>, {1}) \<and>
   \<not> is_empty 1 \<and>
   1 \<le> pool_size \<lparr>pool = [\<lparr>node_value = (5::nat), node_next = 1\<rparr>], free_node_list = 0\<rparr> \<and>
   push_back \<lparr>pool = [\<lparr>node_value = (5::nat), node_next = 1\<rparr>], free_node_list = 0\<rparr> 6 1 = None"
proof -
  let ?P = "\<lparr>pool = [\<lparr>node_value = (5::nat), node_next = 1\<rparr>], free_node_list = 0\<rparr>"
  have "get_tail ?P 1 = None"
    by (rule get_tail_self_loop [of _ _ "\<lparr>node_value = 5, node_next = 1\<rparr>"]) (simp_all add: node_def)
  then have "push_back ?P 6 1 = None"
    by (simp add: push_back_def fpush_back_def is_empty_def pool_end_def)
  moreover have "run (list_pool_init, {}) [Push_front (5::nat) 0, Next_write 1 1] = Some (?P, {1})"
    by (simp add: list_pool_init_def new_list_def pool_end_def push_front_def fpush_front_def
        check_index1_def check_index2_def pool_size_def is_empty_def emplace_back_def
        hand_over_def next_write_def node_def set_node_def)
  ultimately show ?thesis by (simp add: is_empty_def pool_end_def pool_size_def)
qed

text \<open>
  Claim C7 as amended: \<open>push_back(v, head)\<close> with the end index is \<open>push_front(v, head)\<close>;
  with a non-sentinel head from which \<open>next\<close> leads through nodes \<open>as\<close> of the store to the
  end index, and with \<open>free_node_list\<close> inside the store, it returns \<open>head\<close>, the node it
  takes (the head of the free chain, or else the new last slot of the store) holds \<open>v\<close>
  with \<open>next\<close> the end index, and the old tail, when it is another node, now has
  that node as its \<open>next\<close>.
\<close>

theorem push_back_appends:
  "(is_empty head \<longrightarrow> push_back p v head = Some (push_front p v head)) \<and>
   (\<not> is_empty head \<and> chain p head as \<and> free_node_list p \<le> pool_size p \<longrightarrow>
      (\<exists>p'. push_back p v head = Some (Returns head p') \<and>
         node p' (if is_empty (free_node_list p) then Suc (pool_size p) else free_node_list p) =
           Some \<lparr>node_value = v, node_next = pool_end\<rparr> \<and>
         ((if is_empty (free_node_list p) then Suc (pool_size p) else free_node_list p) \<noteq> last as
            \<longrightarrow>
            (\<exists>n. node p (last as) = Some n \<and>
               node p' (last as) =
                 Some (n\<lparr>node_next :=
                   (if is_empty (free_node_list p) then Suc (pool_size p)
                    else free_node_list p)\<rparr>)))))"
proof (intro conjI impI)
  assume "is_empty head"
  then show "push_back p v head = Some (push_front p v head)"
    by (simp add: push_back_def push_front_def fpush_back_def)
next
  assume "\<not> is_empty head \<and> chain p head as \<and> free_node_list p \<le> pool_size p"
  then have a: "chain p head as" "\<not> is_empty head" "free_node_list p \<le> pool_size p"
    by simp_all
  show "\<exists>p'. push_back p v head = Some (Returns head p') \<and>
         node p' (if is_empty (free_node_list p) then Suc (pool_size p) else free_node_list p) =
           Some \<lparr>node_value = v, node_next = pool_end\<rparr> \<and>
         ((if is_empty (free_node_list p) then Suc (pool_size p) else free_node_list p) \<noteq> last as
            \<longrightarrow>
            (\<exists>n. node p (last as) = Some n \<and>
               node p' (last as) =
                 Some (n\<lparr>node_next :=
                   (if is_empty (free_node_list p) then Suc (pool_size p)
                    else free_node_list p)\<rparr>)))"
    by (rule push_back_in_range [OF a])
qed

theorem push_back_appends_witness:
  "(let p = \<lparr>pool = [\<lparr>node_value = (7::nat), node_next = 0\<rparr>, \<lparr>node_value = 8, node_next = 1\<rparr>,
                      \<lparr>node_value = 9, node_next = 0\<rparr>], free_node_list = 3\<rparr> in
     is_empty 0 \<and> push_back p 4 0 = Some (push_front p 4 0) \<and>
     \<not> is_empty 2 \<and> chain p 2 [2, 1] \<and> free_node_list p \<le> pool_size p \<and>
     (\<exists>p'. push_back p 4 2 = Some (Returns 2 p') \<and>
        node p' 3 = Some \<lparr>node_value = 4, node_next = pool_end\<rparr> \<and>
        node p' 1 = Some \<lparr>node_value = 7, node_next = 3\<rparr>))"
proof -
  let ?p = "\<lparr>pool = [\<lparr>node_value = (7::nat), node_next = 0\<rparr>, \<lparr>node_value = 8, node_next = 1\<rparr>,
                      \<lparr>node_value = 9, node_next = 0\<rparr>], free_node_list = 3\<rparr>"
  have h1: "is_empty 0" by (simp add: is_empty_def pool_end_def)
  have h2: "\<not> is_empty 2 \<and> chain ?p 2 [2, 1] \<and> free_node_list ?p \<le> pool_size ?p"
    by (simp add: is_empty_def pool_end_def pool_size_def chain_def node_def)
  have f: "\<not> is_empty (free_node_list ?p)" by (simp add: is_empty_def pool_end_def)
  have n1: "node ?p 1 = Some \<lparr>node_value = 7, node_next = 0\<rparr>" by (simp add: node_def)
  from push_back_appends [of 0 ?p 4 "[]"] h1
  have c1: "push_back ?p 4 0 = Some (push_front ?p 4 0)" by simp
  from push_back_appends [of 2 ?p 4 "[2, 1]"] h2
  obtain p' where p': "push_back ?p 4 2 = Some (Returns 2 p')"
    "node p' (if is_empty (free_node_list ?p) then Suc (pool_size ?p) else free_node_list ?p) =
           Some \<lparr>node_value = 4, node_next = pool_end\<rparr>"
    "(if is_empty (free_node_list ?p) then Suc (pool_size ?p) else free_node_list ?p) \<noteq> last [2, 1]
            \<longrightarrow>
            (\<exists>n. node ?p (last [2, 1]) = Some n \<and>
               node p' (last [2, 1]) =
                 Some (n\<lparr>node_next :=
                   (if is_empty (free_node_list ?p) then Suc (pool_size ?p)
                    else free_node_list ?p)\<rparr>))"
    by auto
  from p'(2) f have a: "node p' 3 = Some \<lparr>node_value = 4, node_next = pool_end\<rparr>" by simp
  from p'(3) f n1 have b: "node p' 1 = Some \<lparr>node_value = 7, node_next = 3\<rparr>" by simp
  from h1 h2 c1 p'(1) a b show ?thesis unfolding Let_def by (intro conjI exI [of _ p']) simp_all
qed

section \<open>The size of the store and the free chain\<close>

lemma next_write_size:
  "next_write p t x = Returns u p' \<or> next_write p t x = Throws e p' \<Longrightarrow>
     pool_size p' = pool_size p"
  by (auto simp: next_write_def split: option.splits)

lemma value_write_size:
  "value_write p t x = Returns u p' \<or> value_write p t x = Throws e p' \<Longrightarrow>
     pool_size p' = pool_size p"
  by (auto simp: value_write_def split: option.splits)

lemma push_front_size:
  "push_front p v h = Returns r p' \<Longrightarrow>
     pool_size p' = (if is_empty (free_node_list p) then Suc (pool_size p) else pool_size p)"
  by (auto simp: push_front_def fpush_front_def Let_def split: option.splits if_splits)

lemma push_front_Throws: "push_front p v h = Throws e p' \<Longrightarrow> p' = p"
  by (auto simp: push_front_def fpush_front_def Let_def split: option.splits if_splits)

lemma get_tail_never_throws:
  assumes "get_tail p h = Some (Throws e q)"
  shows False
proof -
  have "\<forall>e q. y \<noteq> Throws e q" if "get_tail p h = Some y" for y
    by (rule get_tail.raw_induct [where P = "\<lambda>p h y. \<forall>e q. y \<noteq> Throws e q", OF _ that])
      (auto simp: is_empty_def split: option.splits if_splits)
  with assms show ?thesis by blast
qed

lemma push_back_size:
  "push_back p v h = Some (Returns r p') \<Longrightarrow>
     pool_size p' = (if is_empty (free_node_list p) then Suc (pool_size p) else pool_size p)"
  by (auto simp: push_back_def fpush_back_def fpush_front_def next_write_def Let_def
      split: option.splits outcome.splits if_splits)

lemma push_back_Throws_size:
  "push_back p v h = Some (Throws e p') \<Longrightarrow> pool_size p \<le> pool_size p'"
  by (auto simp: push_back_def fpush_back_def fpush_front_def next_write_def Let_def
      dest: get_tail_never_throws split: option.splits outcome.splits if_splits)


lemma free_size:
  "free p h = Returns r p' \<or> free p h = Throws e p' \<Longrightarrow> pool_size p' = pool_size p"
  by (auto simp: free_def split: option.splits if_splits)

lemma free_list_size:
  "free_list p h = Some (Returns r p') \<or> free_list p h = Some (Throws e p') \<Longrightarrow>
     pool_size p' = pool_size p"
  by (auto simp: free_list_def dest: get_tail_never_throws
      split: option.splits outcome.splits if_splits)

lemma exec_size: "exec s c = Some s' \<Longrightarrow> pool_size (fst s) \<le> pool_size (fst s')"
proof (cases s)
  case (Pair p L)
  assume e: "exec s c = Some s'"
  show ?thesis
  proof (cases c)
    case (Push_front v h)
    with e Pair show ?thesis
      by (auto simp: push_front_size dest: push_front_Throws split: outcome.splits)
  next
    case (Push_back v h)
    with e Pair show ?thesis
      by (auto simp: push_back_size dest: push_back_Throws_size
          split: option.splits outcome.splits)
  next
    case (Free h)
    with e Pair show ?thesis
      using free_size [of p h] by (auto split: outcome.splits)
  next
    case (Free_list h)
    with e Pair show ?thesis
      using free_list_size [of p h] by (auto split: option.splits outcome.splits)
  next
    case (Value_write h v)
    with e Pair show ?thesis
      using value_write_size [of p h v] by (auto split: outcome.splits)
  next
    case (Next_write h x)
    with e Pair show ?thesis
      using next_write_size [of p h x] by (auto split: outcome.splits)
  qed
qed

lemma run_size: "run s cs = Some s' \<Longrightarrow> pool_size (fst s) \<le> pool_size (fst s')"
proof (induction cs arbitrary: s)
  case Nil
  then show ?case by simp
next
  case (Cons c cs)
  then obtain s1 where s1: "exec s c = Some s1" "run s1 cs = Some s'"
    by (auto split: option.splits)
  from exec_size [OF s1(1)] Cons.IH [OF s1(2)] show ?case by simp
qed

lemma push_front_free_chain:
  assumes pf: "push_front p v h = Returns r p'" and fs: "chain p (free_node_list p) fs"
    and ne: "\<not> is_empty (free_node_list p)"
  shows "fs \<noteq> [] \<and> chain p' (free_node_list p') (tl fs)"
proof (cases fs)
  case Nil
  with fs ne show ?thesis by (simp add: is_empty_def)
next
  case (Cons f fs')
  with fs obtain m where m: "free_node_list p = f" "node p f = Some m"
    "chain p (node_next m) fs'"
    by (auto simp: chain_Cons)
  from chain_distinct [OF fs] Cons have f1: "f \<notin> set fs'" by simp
  have r: "0 < f" using node_Some_range [OF m(2)] by simp
  from pf have "h \<le> pool_size p"
    by (auto simp: push_front_def fpush_front_def check_index1_def split: if_splits)
  from push_front_recycle [OF this, of m v] m pf
  have "p' = set_node (p\<lparr>free_node_list := node_next m\<rparr>) f \<lparr>node_value = v, node_next = h\<rparr>"
    by simp
  moreover have "chain (p\<lparr>free_node_list := node_next m\<rparr>) (node_next m) fs'"
    using m(3) by simp
  ultimately have "chain p' (node_next m) fs'" using f1 r by (simp add: chain_set_node_other)
  moreover have "free_node_list p' = node_next m" using \<open>p' = _\<close> by simp
  ultimately show ?thesis using Cons by simp
qed

lemma push_back_shortens_free_chain:
  assumes pb: "push_back p v h = Some (Returns r p')" and fs: "chain p (free_node_list p) fs"
    and ne: "\<not> is_empty (free_node_list p)"
    and t: "\<forall>t. get_tail p h = Some (Returns t p) \<longrightarrow> t \<notin> set fs"
  shows "fs \<noteq> [] \<and> chain p' (free_node_list p') (tl fs)"
proof (cases "is_empty h")
  case True
  with pb have "push_front p v h = Returns r p'"
    by (simp add: push_back_def push_front_def fpush_back_def)
  then show ?thesis using fs ne by (rule push_front_free_chain)
next
  case False
  with pb obtain t q where gt: "get_tail p h = Some (Returns t q)"
    by (auto simp: push_back_def fpush_back_def split: option.splits outcome.splits)
  with get_tail_Returns [OF gt] have gt': "get_tail p h = Some (Returns t p)" by simp
  with t have "t \<notin> set fs" by blast
  from push_back_free_chain [OF gt' False fs this, of v] pb
  have "chain p' (free_node_list p') (tl fs)" by auto
  moreover from fs ne have "fs \<noteq> []" by (auto simp: is_empty_def)
  ultimately show ?thesis by simp
qed

text \<open>
  Claim C5 says that every successful \<open>push_back\<close> that finds the free chain non-empty
  shortens it by one node. After \<open>push_front(5, 0)\<close> and \<open>free(1)\<close>, node 1 is the whole
  free chain, and the stale handle 1 is still in range. \<open>push_back(6, 1)\<close> succeeds,
  links node 1 to itself as its own new tail and takes it off the free chain, whose head
  it has just made node 1 again: the free chain is node 1 before and after.
\<close>

theorem push_back_stale_counterexample:
  "run (list_pool_init, {}) [Push_front (5::nat) 0, Free 1] =
     Some (\<lparr>pool = [\<lparr>node_value = 5, node_next = 0\<rparr>], free_node_list = 1\<rparr>, {}) \<and>
   push_back \<lparr>pool = [\<lparr>node_value = (5::nat), node_next = 0\<rparr>], free_node_list = 1\<rparr> 6 1 =
     Some (Returns 1 \<lparr>pool = [\<lparr>node_value = 6, node_next = 0\<rparr>], free_node_list = 1\<rparr>) \<and>
   \<not> is_empty (free_node_list
      \<lparr>pool = [\<lparr>node_value = (5::nat), node_next = 0\<rparr>], free_node_list = 1\<rparr>) \<and>
   chain \<lparr>pool = [\<lparr>node_value = (5::nat), node_next = 0\<rparr>], free_node_list = 1\<rparr> 1 [1] \<and>
   chain \<lparr>pool = [\<lparr>node_value = (6::nat), node_next = 0\<rparr>], free_node_list = 1\<rparr> 1 [1]"
proof -
  let ?P = "\<lparr>pool = [\<lparr>node_value = (5::nat), node_next = 0\<rparr>], free_node_list = 1\<rparr>"
  have "get_tail ?P 1 = Some (Returns 1 ?P)"
    using get_tail_chain [of ?P 1 "[1]"] by (simp add: chain_def node_def pool_end_def)
  then have "push_back ?P 6 1 =
      Some (Returns 1 \<lparr>pool = [\<lparr>node_value = 6, node_next = 0\<rparr>], free_node_list = 1\<rparr>)"
    by (simp add: push_back_def fpush_back_def is_empty_def pool_end_def next_write_def
        check_index2_def check_index1_def pool_size_def node_def set_node_def Let_def)
  moreover have "run (list_pool_init, {}) [Push_front (5::nat) 0, Free 1] = Some (?P, {})"
    by (simp add: list_pool_init_def new_list_def pool_end_def push_front_def fpush_front_def
        check_index1_def pool_size_def is_empty_def emplace_back_def hand_over_def free_def
        node_def set_node_def)
  ultimately show ?thesis
    by (simp add: is_empty_def pool_end_def chain_def node_def)
qed

text \<open>
  Claim C5 as amended: across every sequence of calls \<open>size()\<close> never decreases. A
  \<open>push_front\<close> or \<open>push_back\<close> that returns makes the store one node longer when
  \<open>free_node_list\<close> is the end index; otherwise it leaves \<open>size()\<close> as it was, and when
  the free chain is a chain \<open>fs\<close> ending at the end index, the free chain afterwards is
  one node shorter, for \<open>push_back\<close> provided the tail of the list it was given is not
  on the free chain.
\<close>

theorem size_and_free_chain:
  "(run s cs = Some s' \<longrightarrow> pool_size (fst s) \<le> pool_size (fst s')) \<and>
   (push_front p v h = Returns r p' \<longrightarrow>
      (is_empty (free_node_list p) \<longrightarrow> pool_size p' = Suc (pool_size p)) \<and>
      (\<not> is_empty (free_node_list p) \<longrightarrow>
         pool_size p' = pool_size p \<and>
         (\<forall>fs. chain p (free_node_list p) fs \<longrightarrow>
            (\<exists>fs'. chain p' (free_node_list p') fs' \<and> length fs = Suc (length fs'))))) \<and>
   (push_back q w g = Some (Returns k q') \<longrightarrow>
      (is_empty (free_node_list q) \<longrightarrow> pool_size q' = Suc (pool_size q)) \<and>
      (\<not> is_empty (free_node_list q) \<longrightarrow>
         pool_size q' = pool_size q \<and>
         (\<forall>fs. chain q (free_node_list q) fs \<and>
               (\<forall>t. get_tail q g = Some (Returns t q) \<longrightarrow> t \<notin> set fs) \<longrightarrow>
            (\<exists>fs'. chain q' (free_node_list q') fs' \<and> length fs = Suc (length fs')))))"
proof (intro conjI impI allI)
  assume "run s cs = Some s'"
  then show "pool_size (fst s) \<le> pool_size (fst s')" by (rule run_size)
next
  assume "push_front p v h = Returns r p'" "is_empty (free_node_list p)"
  then show "pool_size p' = Suc (pool_size p)" by (simp add: push_front_size)
next
  assume "push_front p v h = Returns r p'" "\<not> is_empty (free_node_list p)"
  then show "pool_size p' = pool_size p" by (simp add: push_front_size)
next
  fix fs
  assume a: "push_front p v h = Returns r p'" "\<not> is_empty (free_node_list p)"
    "chain p (free_node_list p) fs"
  from push_front_free_chain [OF a(1) a(3) a(2)]
  have "chain p' (free_node_list p') (tl fs) \<and> length fs = Suc (length (tl fs))" by simp
  then show "\<exists>fs'. chain p' (free_node_list p') fs' \<and> length fs = Suc (length fs')" ..
next
  assume "push_back q w g = Some (Returns k q')" "is_empty (free_node_list q)"
  then show "pool_size q' = Suc (pool_size q)" by (simp add: push_back_size)
next
  assume "push_back q w g = Some (Returns k q')" "\<not> is_empty (free_node_list q)"
  then show "pool_size q' = pool_size q" by (simp add: push_back_size)
next
  fix fs
  assume a: "push_back q w g = Some (Returns k q')" "\<not> is_empty (free_node_list q)"
    "chain q (free_node_list q) fs \<and>
       (\<forall>t. get_tail q g = Some (Returns t q) \<longrightarrow> t \<notin> set fs)"
  then have b: "chain q (free_node_list q) fs"
    "\<forall>t. get_tail q g = Some (Returns t q) \<longrightarrow> t \<notin> set fs"
    by simp_all
  from push_back_shortens_free_chain [OF a(1) b(1) a(2) b(2)]
  have "chain q' (free_node_list q') (tl fs) \<and> length fs = Suc (length (tl fs))" by simp
  then show "\<exists>fs'. chain q' (free_node_list q') fs' \<and> length fs = Suc (length fs')" ..
qed

theorem size_and_free_chain_witness:
  "(let p0 = (list_pool_init :: nat list_pool);
        p1 = \<lparr>pool = [\<lparr>node_value = (5::nat), node_next = 0\<rparr>], free_node_list = 1\<rparr>;
        p2 = \<lparr>pool = [\<lparr>node_value = (6::nat), node_next = 0\<rparr>], free_node_list = 0\<rparr>;
        p3 = \<lparr>pool = [\<lparr>node_value = (6::nat), node_next = 0\<rparr>, \<lparr>node_value = 8, node_next = 1\<rparr>],
               free_node_list = 0\<rparr>;
        p4 = \<lparr>pool = [\<lparr>node_value = (6::nat), node_next = 2\<rparr>, \<lparr>node_value = 8, node_next = 0\<rparr>],
               free_node_list = 0\<rparr>;
        q = \<lparr>pool = [\<lparr>node_value = (5::nat), node_next = 0\<rparr>, \<lparr>node_value = 6, node_next = 0\<rparr>],
               free_node_list = 2\<rparr>;
        q' = \<lparr>pool = [\<lparr>node_value = (5::nat), node_next = 2\<rparr>, \<lparr>node_value = 7, node_next = 0\<rparr>],
               free_node_list = 0\<rparr> in
     run (p0, {}) [Push_front 5 0, Free 1] = Some (p1, {}) \<and> pool_size p0 \<le> pool_size p1 \<and>
     push_front p1 6 0 = Returns 1 p2 \<and> \<not> is_empty (free_node_list p1) \<and>
     chain p1 (free_node_list p1) [1] \<and> pool_size p2 = pool_size p1 \<and>
     (\<exists>fs'. chain p2 (free_node_list p2) fs' \<and> length [1::nat] = Suc (length fs')) \<and>
     push_back q 7 1 = Some (Returns 1 q') \<and> \<not> is_empty (free_node_list q) \<and>
     chain q (free_node_list q) [2] \<and> get_tail q 1 = Some (Returns 1 q) \<and>
     pool_size q' = pool_size q \<and>
     (\<exists>fs'. chain q' (free_node_list q') fs' \<and> length [2::nat] = Suc (length fs')) \<and>
     push_front p2 8 1 = Returns 2 p3 \<and> is_empty (free_node_list p2) \<and>
     pool_size p3 = Suc (pool_size p2) \<and>
     push_back p2 8 1 = Some (Returns 1 p4) \<and> pool_size p4 = Suc (pool_size p2))"
proof -
  let ?p0 = "list_pool_init :: nat list_pool"
  let ?p1 = "\<lparr>pool = [\<lparr>node_value = (5::nat), node_next = 0\<rparr>], free_node_list = 1\<rparr>"
  let ?p2 = "\<lparr>pool = [\<lparr>node_value = (6::nat), node_next = 0\<rparr>], free_node_list = 0\<rparr>"
  let ?p3 = "\<lparr>pool = [\<lparr>node_value = (6::nat), node_next = 0\<rparr>, \<lparr>node_value = 8, node_next = 1\<rparr>],
               free_node_list = 0\<rparr>"
  let ?p4 = "\<lparr>pool = [\<lparr>node_value = (6::nat), node_next = 2\<rparr>, \<lparr>node_value = 8, node_next = 0\<rparr>],
               free_node_list = 0\<rparr>"
  let ?q = "\<lparr>pool = [\<lparr>node_value = (5::nat), node_next = 0\<rparr>, \<lparr>node_value = 6, node_next = 0\<rparr>],
               free_node_list = 2\<rparr>"
  let ?q' = "\<lparr>pool = [\<lparr>node_value = (5::nat), node_next = 2\<rparr>, \<lparr>node_value = 7, node_next = 0\<rparr>],
               free_node_list = 0\<rparr>"
  have r: "run (?p0, {}) [Push_front 5 0, Free 1] = Some (?p1, {})"
    by (simp add: list_pool_init_def new_list_def pool_end_def push_front_def fpush_front_def
        check_index1_def pool_size_def is_empty_def emplace_back_def hand_over_def free_def
        node_def set_node_def)
  have pf: "push_front ?p1 6 0 = Returns 1 ?p2"
    by (simp add: pool_end_def push_front_def fpush_front_def check_index1_def pool_size_def
        is_empty_def node_def set_node_def Let_def)
  have f1: "\<not> is_empty (free_node_list ?p1)" by (simp add: is_empty_def pool_end_def)
  have c1: "chain ?p1 (free_node_list ?p1) [1]" by (simp add: chain_def node_def pool_end_def)
  have gt: "get_tail ?q 1 = Some (Returns 1 ?q)"
    using get_tail_chain [of ?q 1 "[1]"] by (simp add: chain_def node_def pool_end_def)
  then have pb: "push_back ?q 7 1 = Some (Returns 1 ?q')"
    by (simp add: push_back_def fpush_back_def is_empty_def pool_end_def next_write_def
        check_index2_def check_index1_def pool_size_def node_def set_node_def Let_def)
  have f2: "\<not> is_empty (free_node_list ?q)" by (simp add: is_empty_def pool_end_def)
  have c2: "chain ?q (free_node_list ?q) [2]" by (simp add: chain_def node_def pool_end_def)
  have t2: "\<forall>t. get_tail ?q 1 = Some (Returns t ?q) \<longrightarrow> t \<notin> set [2::nat]"
    using gt by simp
  have pf0: "push_front ?p2 8 1 = Returns 2 ?p3"
    by (simp add: pool_end_def push_front_def fpush_front_def check_index1_def pool_size_def
        is_empty_def emplace_back_def Let_def)
  have f0: "is_empty (free_node_list ?p2)" by (simp add: is_empty_def pool_end_def)
  have "get_tail ?p2 1 = Some (Returns 1 ?p2)"
    using get_tail_chain [of ?p2 1 "[1]"] by (simp add: chain_def node_def pool_end_def)
  then have pb0: "push_back ?p2 8 1 = Some (Returns 1 ?p4)"
    by (simp add: push_back_def fpush_back_def is_empty_def pool_end_def next_write_def
        check_index2_def check_index1_def pool_size_def node_def set_node_def emplace_back_def
        Let_def)
  note T = size_and_free_chain [of "(?p0, {})" "[Push_front 5 0, Free 1]" "(?p1, {})"
      ?p1 6 0 1 ?p2 ?q 7 1 1 ?q']
  have s1: "pool_size ?p0 \<le> pool_size ?p1"
    using T [THEN conjunct1, THEN mp, OF r] by simp
  note F = T [THEN conjunct2, THEN conjunct1, THEN mp, OF pf, THEN conjunct2, THEN mp, OF f1]
  have s2: "pool_size ?p2 = pool_size ?p1" by (rule F [THEN conjunct1])
  have s3: "\<exists>fs'. chain ?p2 (free_node_list ?p2) fs' \<and> length [1::nat] = Suc (length fs')"
    by (rule F [THEN conjunct2, THEN spec, THEN mp, OF c1])
  note B = T [THEN conjunct2, THEN conjunct2, THEN mp, OF pb, THEN conjunct2, THEN mp, OF f2]
  have s4: "pool_size ?q' = pool_size ?q" by (rule B [THEN conjunct1])
  have s5: "\<exists>fs'. chain ?q' (free_node_list ?q') fs' \<and> length [2::nat] = Suc (length fs')"
    by (rule B [THEN conjunct2, THEN spec, THEN mp, OF conjI [OF c2 t2]])
  note U = size_and_free_chain [of "(?p0, {})" "[]" "(?p0, {})" ?p2 8 1 2 ?p3 ?p2 8 1 1 ?p4]
  have s6: "pool_size ?p3 = Suc (pool_size ?p2)"
    by (rule U [THEN conjunct2, THEN conjunct1, THEN mp, OF pf0, THEN conjunct1, THEN mp, OF f0])
  have s7: "pool_size ?p4 = Suc (pool_size ?p2)"
    by (rule U [THEN conjunct2, THEN conjunct2, THEN mp, OF pb0, THEN conjunct1, THEN mp, OF f0])
  from r s1 pf f1 c1 s2 s3 pb f2 c2 gt s4 s5 pf0 f0 s6 pb0 s7 show ?thesis
    unfolding Let_def by (intro conjI)
qed

section \<open>The order of a list built by \<open>push_back\<close>\<close>

lemma value_at_node: "node p a = Some n \<Longrightarrow> value_at p a = node_value n"
  by (auto simp: node_def value_at_def split: if_splits)

lemma traverse_chain:
  "chain p h as \<Longrightarrow>
     traverse p \<lparr>pool_ref = s, current = h\<rparr> \<lparr>pool_ref = s, current = pool_end\<rparr> acc =
       Some (Returns (acc @ map (value_at p) as) p)"
proof (induction as arbitrary: h acc)
  case Nil
  then show ?case by (subst traverse.simps) (simp add: iter_neq_def iter_eq_def)
next
  case (Cons a as)
  from Cons.prems obtain n where n: "h = a" "node p a = Some n" "chain p (node_next n) as"
    by (auto simp: chain_Cons)
  from n(2) have a0: "a \<noteq> pool_end" "a \<noteq> 0"
    by (auto simp: pool_end_def dest: node_Some_range)
  have "traverse p \<lparr>pool_ref = s, current = a\<rparr> \<lparr>pool_ref = s, current = pool_end\<rparr> acc =
      traverse p \<lparr>pool_ref = s, current = node_next n\<rparr> \<lparr>pool_ref = s, current = pool_end\<rparr>
        (acc @ [node_value n])"
    using n(2) a0
    by (subst traverse.simps)
      (simp add: iter_neq_def iter_eq_def iter_value_def pre_increment_def update_def)
  with Cons.IH [OF n(3), of "acc @ [node_value n]"] n(1,2) show ?case
    by (simp add: value_at_node)
qed

lemma traverse_list_chain:
  "chain p h as \<Longrightarrow> traverse_list s p h = Some (Returns (map (value_at p) as) p)"
  using traverse_chain [of p h as s "[]"] by (simp add: traverse_list_def iter_begin_def iter_end_def)

lemma push_backs_chain:
  assumes "chain p (free_node_list p) fs" "chain p h as" "set as \<inter> set fs = {}"
  shows "\<exists>h' p' as'. push_backs p vs h = Some (Returns h' p') \<and> chain p' h' as' \<and>
     map (value_at p') as' = map (value_at p) as @ vs"
  using assms
proof (induction vs arbitrary: p h as fs)
  case Nil
  then show ?case by auto
next
  case (Cons v vs)
  note fs = Cons.prems(1) and as = Cons.prems(2) and disj = Cons.prems(3)
  have "\<exists>h1 p1 as1. push_back p v h = Some (Returns h1 p1) \<and> chain p1 h1 as1 \<and>
      chain p1 (free_node_list p1) (tl fs) \<and> set as1 \<inter> set (tl fs) = {} \<and>
      map (value_at p1) as1 = map (value_at p) as @ [v]"
  proof (cases as)
    case Nil
    with as have h0: "is_empty h" by (simp add: is_empty_def)
    from push_front_chains [OF fs as disj, of v] obtain r p1 where
      r: "push_front p v h = Returns r p1" "chain p1 r (r # as)"
        "chain p1 (free_node_list p1) (tl fs)"
        "node p1 r = Some \<lparr>node_value = v, node_next = h\<rparr>"
        "fs = [] \<longrightarrow> r = Suc (pool_size p)" "fs \<noteq> [] \<longrightarrow> r = hd fs"
      by blast
    have "r \<notin> set (tl fs)"
    proof (cases fs)
      case Nil
      then show ?thesis by simp
    next
      case (Cons f fs')
      with r(6) chain_distinct [OF fs] show ?thesis by simp
    qed
    with r Nil h0 show ?thesis
      by (intro exI [of _ r] exI [of _ p1] exI [of _ "[r]"])
        (simp add: push_back_def push_front_def fpush_back_def value_at_node)
  next
    case (Cons a as0)
    then have ne: "as \<noteq> []" by simp
    from push_back_chains [OF fs as ne disj, of v] obtain new p1 n where
      r: "push_back p v h = Some (Returns h p1)" "chain p1 h (as @ [new])"
        "chain p1 (free_node_list p1) (tl fs)"
        "node p1 new = Some \<lparr>node_value = v, node_next = pool_end\<rparr>"
        "fs = [] \<longrightarrow> new = Suc (pool_size p)" "fs \<noteq> [] \<longrightarrow> new = hd fs"
        "\<forall>j. j \<noteq> new \<longrightarrow> j \<noteq> last as \<longrightarrow> node p j \<noteq> None \<longrightarrow> node p1 j = node p j"
        "node p (last as) = Some n" "node p1 (last as) = Some (n\<lparr>node_next := new\<rparr>)"
      by blast
    have new: "new \<notin> set as \<and> new \<notin> set (tl fs)"
    proof (cases fs)
      case Nil
      with r(5) chain_in_range [OF as, of "Suc (pool_size p)"] show ?thesis by auto
    next
      case (Cons f fs')
      with r(6) chain_distinct [OF fs] disj show ?thesis by auto
    qed
    have "value_at p1 b = value_at p b" if "b \<in> set as" for b
    proof (cases "b = last as")
      case True
      with r(8,9) show ?thesis by (simp add: value_at_node)
    next
      case False
      from chain_in_range [OF as that] obtain nb where nb: "node p b = Some nb"
        by (auto simp: node_in_range)
      with r(7) False new that have "node p1 b = Some nb" by auto
      with nb show ?thesis by (simp add: value_at_node)
    qed
    then have "map (value_at p1) as = map (value_at p) as" by simp
    moreover have "set (tl fs) \<subseteq> set fs" by (cases fs) auto
    with disj new have "set (as @ [new]) \<inter> set (tl fs) = {}" by auto
    ultimately show ?thesis using r(1-4)
      by (intro exI [of _ h] exI [of _ p1] exI [of _ "as @ [new]"]) (simp add: value_at_node)
  qed
  then obtain h1 p1 as1 where s: "push_back p v h = Some (Returns h1 p1)" "chain p1 h1 as1"
    "chain p1 (free_node_list p1) (tl fs)" "set as1 \<inter> set (tl fs) = {}"
    "map (value_at p1) as1 = map (value_at p) as @ [v]"
    by blast
  from Cons.IH [OF s(3) s(2) s(4)] obtain h' p' as' where
    "push_backs p1 vs h1 = Some (Returns h' p')" "chain p' h' as'"
    "map (value_at p') as' = map (value_at p1) as1 @ vs"
    by blast
  with s(1,5) show ?case by auto
qed

text \<open>
  Claim C2 says that, starting from any pool, pushing \<open>v1, \<dots>, vn\<close> at the back of an
  empty list and traversing it yields \<open>v1, \<dots>, vn\<close>. After \<open>push_front(5, 0)\<close>, \<open>free(1)\<close>
  and \<open>free(1)\<close> again, the free chain is node 1 linked to itself. From that pool,
  pushing 10 and then 20 at the back of an empty list takes node 1 twice, and the
  traversal of the returned head yields 20 alone.
\<close>

theorem push_back_order_counterexample:
  "run (list_pool_init, {}) [Push_front (5::nat) 0, Free 1, Free 1] =
     Some (\<lparr>pool = [\<lparr>node_value = 5, node_next = 1\<rparr>], free_node_list = 1\<rparr>, {}) \<and>
   push_backs \<lparr>pool = [\<lparr>node_value = (5::nat), node_next = 1\<rparr>], free_node_list = 1\<rparr>
       [10, 20] new_list =
     Some (Returns 1 \<lparr>pool = [\<lparr>node_value = 20, node_next = 0\<rparr>], free_node_list = 1\<rparr>) \<and>
   traverse_list 0 \<lparr>pool = [\<lparr>node_value = (20::nat), node_next = 0\<rparr>], free_node_list = 1\<rparr> 1 =
     Some (Returns [20] \<lparr>pool = [\<lparr>node_value = 20, node_next = 0\<rparr>], free_node_list = 1\<rparr>)"
  by code_simp

text \<open>
  Claim C2 as amended: starting from any pool whose free chain leads from
  \<open>free_node_list\<close> through nodes of the store to the end index, and from an empty list,
  successive \<open>push_back\<close> calls with \<open>v1, \<dots>, vn\<close>, each on the head the previous one
  returned, all return, and traversing from the last head returned ends and yields exactly
  \<open>v1, \<dots>, vn\<close> in that order.
\<close>

theorem push_back_order:
  "chain p (free_node_list p) fs \<Longrightarrow>
     \<exists>h p'. push_backs p vs new_list = Some (Returns h p') \<and>
       traverse_list s p' h = Some (Returns vs p')"
proof -
  assume fs: "chain p (free_node_list p) fs"
  have "chain p new_list []" by (simp add: new_list_def)
  from push_backs_chain [OF fs this, of vs] obtain h p' as' where
    r: "push_backs p vs new_list = Some (Returns h p')" "chain p' h as'"
      "map (value_at p') as' = vs"
    by auto
  from traverse_list_chain [OF r(2), of s] r(3)
  have "traverse_list s p' h = Some (Returns vs p')" by simp
  with r(1) show ?thesis by blast
qed

theorem push_back_order_witness:
  "(let p = \<lparr>pool = [\<lparr>node_value = (7::nat), node_next = 0\<rparr>, \<lparr>node_value = 8, node_next = 1\<rparr>],
               free_node_list = 2\<rparr> in
     chain p (free_node_list p) [2, 1] \<and>
     (\<exists>h p'. push_backs p [10, 20, 30] new_list = Some (Returns h p') \<and>
        traverse_list 0 p' h = Some (Returns [10, 20, 30] p')))"
proof -
  let ?p = "\<lparr>pool = [\<lparr>node_value = (7::nat), node_next = 0\<rparr>, \<lparr>node_value = 8, node_next = 1\<rparr>],
               free_node_list = 2\<rparr>"
  have c: "chain ?p (free_node_list ?p) [2, 1]" by (simp add: chain_def node_def pool_end_def)
  from c push_back_order [OF c, of "[10, 20, 30]" 0] show ?thesis
    unfolding Let_def by (rule conjI)
qed

section \<open>The lists a caller holds and the free chain\<close>

lemma proper_iff: "proper p h \<longleftrightarrow> (\<exists>as. chain p h as)"
  using walk_chain [of p h _ "pool_size p"] chain_length [of p h]
  by (auto simp: proper_def)

lemma chain_properD: "chain p h as \<Longrightarrow> proper p h \<and> reachable p h = set as"
  by (auto simp: proper_iff reachable_chain)

lemma consistent_step:
  assumes inv: "consistent (p, L)"
    and h: "is_empty h \<or> h \<in> L"
    and as: "chain p h as" and fs: "chain p (free_node_list p) fs"
    and as': "chain p' h' as'" and fs': "chain p' (free_node_list p') fs'"
    and sets: "set as' \<union> set fs' = set as \<union> set fs \<union> {pool_size p <.. pool_size p'}"
    and disj': "set as' \<inter> set fs' = {}"
    and size: "pool_size p \<le> pool_size p'"
    and frame: "\<And>g bs. chain p g bs \<Longrightarrow> set bs \<inter> (set as \<union> set fs) = {} \<Longrightarrow> chain p' g bs"
  shows "consistent (p', hand_over L h h')"
proof -
  from inv have I1: "pool_end \<notin> L"
    and I3: "\<forall>g \<in> L. proper p g \<and> reachable p g \<inter> free_members p = {}"
    and I4: "\<forall>g \<in> L. \<forall>k \<in> L. g \<noteq> k \<longrightarrow> reachable p g \<inter> reachable p k = {}"
    and I5: "\<forall>i \<in> {1 .. pool_size p}. i \<in> free_members p \<or> (\<exists>g \<in> L. i \<in> reachable p g)"
    by (simp_all add: consistent_def Let_def)
  have F: "free_members p = set fs" using fs by (simp add: free_members_def reachable_chain)
  have F': "free_members p' = set fs'" using fs' by (simp add: free_members_def reachable_chain)
  have A: "reachable p h = set as" using as by (rule reachable_chain)
  have A0: "as = []" if "h \<notin> L"
    using that h as by (auto simp: is_empty_def)
  have keep: "proper p' g \<and> reachable p' g = reachable p g \<and>
      reachable p g \<inter> (set as \<union> set fs) = {} \<and> reachable p g \<subseteq> {1 .. pool_size p}"
    if g: "g \<in> L" "g \<noteq> h" for g
  proof -
    from I3 g(1) obtain bs where bs: "chain p g bs" by (auto simp: proper_iff)
    then have R: "reachable p g = set bs" by (rule reachable_chain)
    from I3 g(1) R F have d1: "set bs \<inter> set fs = {}" by auto
    have d2: "set bs \<inter> set as = {}"
    proof (cases "h \<in> L")
      case True
      with I4 g have "reachable p g \<inter> reachable p h = {}" by blast
      with R A show ?thesis by simp
    next
      case False
      then show ?thesis by (simp add: A0)
    qed
    from d1 d2 have "set bs \<inter> (set as \<union> set fs) = {}" by auto
    with bs have "chain p' g bs" by (rule frame)
    then have "proper p' g \<and> reachable p' g = set bs" by (rule chain_properD)
    moreover have "set bs \<subseteq> {1 .. pool_size p}"
      using chain_in_range [OF bs] by (fastforce simp: Suc_le_eq)
    ultimately show ?thesis using R d1 d2 by auto
  qed
  have H': "proper p' h' \<and> reachable p' h' = set as'" using as' by (rule chain_properD)
  have E: "h' = pool_end \<longleftrightarrow> as' = []" using as' by (cases as') (auto simp: chain_Cons pool_end_def dest: node_Some_range)
  let ?L' = "hand_over L h h'"
  have L': "g \<in> ?L' \<longleftrightarrow> (g \<in> L \<and> g \<noteq> h) \<or> (g = h' \<and> h' \<noteq> pool_end)" for g
    by (auto simp: hand_over_def is_empty_def)
  have new: "set as' \<union> set fs' \<subseteq> set as \<union> set fs \<union> {pool_size p <.. pool_size p'}"
    using sets by simp
  have c1: "pool_end \<notin> ?L'" using I1 by (auto simp: L')
  have c2: "proper p' (free_node_list p')" using fs' by (auto simp: proper_iff)
  have c3: "proper p' g \<and> reachable p' g \<inter> free_members p' = {}" if "g \<in> ?L'" for g
  proof (cases "g = h' \<and> h' \<noteq> pool_end")
    case True
    with H' F' disj' show ?thesis by simp
  next
    case False
    with that have g: "g \<in> L" "g \<noteq> h" by (auto simp: L')
    from keep [OF g] new F' show ?thesis by fastforce
  qed
  have c4: "reachable p' g \<inter> reachable p' k = {}" if "g \<in> ?L'" "k \<in> ?L'" "g \<noteq> k" for g k
  proof -
    have one: "reachable p' a \<inter> reachable p' h' = {}" if a: "a \<in> L" "a \<noteq> h" for a
      using keep [OF a] new H' by fastforce
    show ?thesis
    proof (cases "g = h' \<and> h' \<noteq> pool_end")
      case True
      with that have k: "k \<in> L" "k \<noteq> h" by (auto simp: L')
      from one [OF k] True show ?thesis by auto
    next
      case False
      with that have g: "g \<in> L" "g \<noteq> h" by (auto simp: L')
      show ?thesis
      proof (cases "k = h' \<and> h' \<noteq> pool_end")
        case True
        with one [OF g] show ?thesis by auto
      next
        case False
        with that have k: "k \<in> L" "k \<noteq> h" by (auto simp: L')
        from I4 g(1) k(1) that(3) keep [OF g] keep [OF k] show ?thesis by auto
      qed
    qed
  qed
  have c5: "i \<in> free_members p' \<or> (\<exists>g \<in> ?L'. i \<in> reachable p' g)"
    if i: "i \<in> {1 .. pool_size p'}" for i
  proof -
    have inn: "i \<in> free_members p' \<or> (\<exists>g \<in> ?L'. i \<in> reachable p' g)"
      if "i \<in> set as' \<union> set fs'"
    proof (cases "i \<in> set fs'")
      case True
      then show ?thesis by (simp add: F')
    next
      case False
      with that have "i \<in> set as'" by simp
      moreover from this E have "h' \<noteq> pool_end" by auto
      ultimately show ?thesis using H' by (auto simp: L')
    qed
    show ?thesis
    proof (cases "i \<le> pool_size p")
      case False
      with i sets have "i \<in> set as' \<union> set fs'" by auto
      then show ?thesis by (rule inn)
    next
      case True
      with i I5 have "i \<in> free_members p \<or> (\<exists>g \<in> L. i \<in> reachable p g)" by auto
      then show ?thesis
      proof
        assume "i \<in> free_members p"
        with F sets have "i \<in> set as' \<union> set fs'" by auto
        then show ?thesis by (rule inn)
      next
        assume "\<exists>g \<in> L. i \<in> reachable p g"
        then obtain g where g: "g \<in> L" "i \<in> reachable p g" by blast
        show ?thesis
        proof (cases "g = h")
          case True
          with g A sets have "i \<in> set as' \<union> set fs'" by auto
          then show ?thesis by (rule inn)
        next
          case False
          with keep [OF g(1) False] g show ?thesis by (auto simp: L')
        qed
      qed
    qed
  qed
  from c1 c2 c3 c4 c5 show ?thesis
    unfolding consistent_def Let_def fst_conv snd_conv by blast
qed

lemma consistentD:
  assumes "consistent (p, L)"
  shows "\<exists>fs. chain p (free_node_list p) fs"
    and "h \<in> L \<Longrightarrow> \<exists>as. chain p h as \<and> as \<noteq> [] \<and> (\<forall>fs. chain p (free_node_list p) fs \<longrightarrow> set as \<inter> set fs = {})"
proof -
  from assms have I1: "pool_end \<notin> L" and I2: "proper p (free_node_list p)"
    and I3: "\<forall>g \<in> L. proper p g \<and> reachable p g \<inter> free_members p = {}"
    by (simp_all add: consistent_def Let_def)
  from I2 show "\<exists>fs. chain p (free_node_list p) fs" by (simp add: proper_iff)
  assume h: "h \<in> L"
  with I3 obtain as where as: "chain p h as" by (auto simp: proper_iff)
  from h I1 have "h \<noteq> pool_end" by auto
  with as have ne: "as \<noteq> []" by auto
  have "set as \<inter> set fs = {}" if "chain p (free_node_list p) fs" for fs
    using I3 h reachable_chain [OF as] reachable_chain [OF that] by (auto simp: free_members_def)
  with as ne show "\<exists>as. chain p h as \<and> as \<noteq> [] \<and>
      (\<forall>fs. chain p (free_node_list p) fs \<longrightarrow> set as \<inter> set fs = {})"
    by blast
qed

lemma chain_frame_except:
  assumes "chain p g bs"
    and "\<And>j. j \<notin> M \<Longrightarrow> node p j \<noteq> None \<Longrightarrow> node p' j = node p j"
    and "set bs \<inter> M = {}"
  shows "chain p' g bs"
proof (rule chain_frame [OF assms(1)])
  show "\<forall>a \<in> set bs. node p' a = node p a"
  proof
    fix a
    assume a: "a \<in> set bs"
    with assms(1) have "node p a \<noteq> None" unfolding chain_def by (rule path_in_range)
    moreover from a assms(3) have "a \<notin> M" by auto
    ultimately show "node p' a = node p a" by (rule assms(2) [rotated])
  qed
qed

lemma consistent_push_front:
  assumes inv: "consistent (p, L)" and h: "is_empty h \<or> h \<in> L"
  shows "\<exists>r p'. push_front p v h = Returns r p' \<and> consistent (p', hand_over L h r)"
proof -
  from consistentD(1) [OF inv] obtain fs where fs: "chain p (free_node_list p) fs" by blast
  have "\<exists>as. chain p h as \<and> set as \<inter> set fs = {}"
  proof (cases "h \<in> L")
    case True
    from consistentD(2) [OF inv True] fs show ?thesis by blast
  next
    case False
    with h have "chain p h []" by (simp add: is_empty_def)
    then show ?thesis by (intro exI [of _ "[]"]) simp
  qed
  then obtain as where as: "chain p h as" and disj: "set as \<inter> set fs = {}" by blast
  from push_front_chains [OF fs as disj, of v] obtain r p' where
    r: "push_front p v h = Returns r p'" "chain p' r (r # as)"
      "chain p' (free_node_list p') (tl fs)"
      "fs = [] \<longrightarrow> r = Suc (pool_size p) \<and> pool_size p' = Suc (pool_size p)"
      "fs \<noteq> [] \<longrightarrow> r = hd fs \<and> pool_size p' = pool_size p"
      "\<forall>j. j \<noteq> r \<longrightarrow> node p j \<noteq> None \<longrightarrow> node p' j = node p j"
    by blast
  have sets: "set (r # as) \<union> set (tl fs) = set as \<union> set fs \<union> {pool_size p <.. pool_size p'}"
  proof (cases fs)
    case Nil
    with r(4) show ?thesis by auto
  next
    case (Cons f fs')
    with r(5) show ?thesis by auto
  qed
  have rn: "r \<notin> set as \<and> r \<notin> set (tl fs)"
  proof (cases fs)
    case Nil
    with r(4) chain_in_range [OF as, of "Suc (pool_size p)"] show ?thesis by auto
  next
    case (Cons f fs')
    with r(5) chain_distinct [OF fs] disj show ?thesis by auto
  qed
  have "set (tl fs) \<subseteq> set fs" by (cases fs) auto
  with disj rn have disj': "set (r # as) \<inter> set (tl fs) = {}" by auto
  have size: "pool_size p \<le> pool_size p'" using r(4,5) by (cases fs) auto
  have frame: "chain p' g bs" if bs: "chain p g bs" "set bs \<inter> (set as \<union> set fs) = {}" for g bs
  proof -
    have "r \<notin> set bs"
    proof (cases fs)
      case Nil
      with r(4) chain_in_range [OF bs(1), of "Suc (pool_size p)"] show ?thesis by auto
    next
      case (Cons f fs')
      with r(5) bs(2) show ?thesis by auto
    qed
    then have dj: "set bs \<inter> {r} = {}" by simp
    from r(6) have fr: "node p' j = node p j" if "j \<notin> {r}" "node p j \<noteq> None" for j
      using that by simp
    show ?thesis by (rule chain_frame_except [OF bs(1) fr dj])
  qed
  from consistent_step [OF inv h as fs r(2) r(3) sets disj' size frame]
  have "consistent (p', hand_over L h r)" by blast
  with r(1) show ?thesis by blast
qed

lemma consistent_push_back:
  assumes inv: "consistent (p, L)" and h: "is_empty h \<or> h \<in> L"
  shows "\<exists>r p'. push_back p v h = Some (Returns r p') \<and> consistent (p', hand_over L h r)"
proof (cases "is_empty h")
  case True
  then have "push_back p v h = Some (push_front p v h)"
    by (simp add: push_back_def push_front_def fpush_back_def)
  with consistent_push_front [OF inv h, of v] show ?thesis by auto
next
  case False
  with h have hL: "h \<in> L" by simp
  from consistentD(1) [OF inv] obtain fs where fs: "chain p (free_node_list p) fs" by blast
  from consistentD(2) [OF inv hL] fs obtain as where
    as: "chain p h as" and ne: "as \<noteq> []" and disj: "set as \<inter> set fs = {}"
    by blast
  from push_back_chains [OF fs as ne disj, of v] obtain new p' where
    r: "push_back p v h = Some (Returns h p')" "chain p' h (as @ [new])"
      "chain p' (free_node_list p') (tl fs)"
      "fs = [] \<longrightarrow> new = Suc (pool_size p) \<and> pool_size p' = Suc (pool_size p)"
      "fs \<noteq> [] \<longrightarrow> new = hd fs \<and> pool_size p' = pool_size p"
      "\<forall>j. j \<noteq> new \<longrightarrow> j \<noteq> last as \<longrightarrow> node p j \<noteq> None \<longrightarrow> node p' j = node p j"
    by blast
  have sets: "set (as @ [new]) \<union> set (tl fs) =
      set as \<union> set fs \<union> {pool_size p <.. pool_size p'}"
  proof (cases fs)
    case Nil
    with r(4) show ?thesis by auto
  next
    case (Cons f fs')
    with r(5) show ?thesis by auto
  qed
  have rn: "new \<notin> set as \<and> new \<notin> set (tl fs)"
  proof (cases fs)
    case Nil
    with r(4) chain_in_range [OF as, of "Suc (pool_size p)"] show ?thesis by auto
  next
    case (Cons f fs')
    with r(5) chain_distinct [OF fs] disj show ?thesis by auto
  qed
  have "set (tl fs) \<subseteq> set fs" by (cases fs) auto
  with disj rn have disj': "set (as @ [new]) \<inter> set (tl fs) = {}" by auto
  have size: "pool_size p \<le> pool_size p'" using r(4,5) by (cases fs) auto
  have frame: "chain p' g bs" if bs: "chain p g bs" "set bs \<inter> (set as \<union> set fs) = {}" for g bs
  proof -
    have "new \<notin> set bs"
    proof (cases fs)
      case Nil
      with r(4) chain_in_range [OF bs(1), of "Suc (pool_size p)"] show ?thesis by auto
    next
      case (Cons f fs')
      with r(5) bs(2) show ?thesis by auto
    qed
    moreover from bs(2) last_in_set [OF ne] have "last as \<notin> set bs" by auto
    ultimately have dj: "set bs \<inter> {new, last as} = {}" by simp
    from r(6) have fr: "node p' j = node p j" if "j \<notin> {new, last as}" "node p j \<noteq> None" for j
      using that by simp
    show ?thesis by (rule chain_frame_except [OF bs(1) fr dj])
  qed
  from consistent_step [OF inv h as fs r(2) r(3) sets disj' size frame]
  have "consistent (p', hand_over L h h)" by blast
  with r(1) show ?thesis by blast
qed

lemma consistent_noop:
  assumes inv: "consistent (p, L)" and h: "is_empty h"
  shows "consistent (p, hand_over L h h)"
proof -
  from inv have "pool_end \<notin> L" by (simp add: consistent_def Let_def)
  with h have "hand_over L h h = L" by (auto simp: hand_over_def is_empty_def)
  with inv show ?thesis by simp
qed

lemma consistent_free:
  assumes inv: "consistent (p, L)" and h: "is_empty h \<or> h \<in> L"
  shows "\<exists>r p'. free p h = Returns r p' \<and> consistent (p', hand_over L h r)"
proof (cases "is_empty h")
  case True
  then have "free p h = Returns h p" by (simp add: free_def)
  with consistent_noop [OF inv True] show ?thesis by simp
next
  case False
  with h have hL: "h \<in> L" by simp
  from consistentD(1) [OF inv] obtain fs where fs: "chain p (free_node_list p) fs" by blast
  from consistentD(2) [OF inv hL] fs obtain as where
    as: "chain p h as" and ne: "as \<noteq> []" and disj: "set as \<inter> set fs = {}"
    by blast
  from ne obtain a as0 where split: "as = a # as0" by (cases as) auto
  with as have ha: "h = a" by (simp add: chain_Cons)
  from as disj split have as1: "chain p h (a # as0)" and disj1: "set (a # as0) \<inter> set fs = {}"
    by simp_all
  from free_chains [OF fs as1 disj1] obtain n p' where
    R: "node p h = Some n \<and> free p h = Returns (node_next n) p' \<and>
      chain p' (node_next n) as0 \<and> chain p' (free_node_list p') (h # fs) \<and>
      pool_size p' = pool_size p \<and> (\<forall>j. j \<noteq> h \<longrightarrow> node p' j = node p j)"
    by (elim exE)
  then have r: "free p h = Returns (node_next n) p'" "chain p' (node_next n) as0"
      "chain p' (free_node_list p') (h # fs)" "pool_size p' = pool_size p"
      "\<forall>j. j \<noteq> h \<longrightarrow> node p' j = node p j"
    by simp_all
  have sets: "set as0 \<union> set (h # fs) = set as \<union> set fs \<union> {pool_size p <.. pool_size p'}"
    using split ha r(4) by auto
  from chain_distinct [OF as] split have "a \<notin> set as0" by simp
  with disj split ha have disj': "set as0 \<inter> set (h # fs) = {}" by auto
  have size: "pool_size p \<le> pool_size p'" using r(4) by simp
  have frame: "chain p' g bs" if bs: "chain p g bs" "set bs \<inter> (set as \<union> set fs) = {}" for g bs
  proof -
    from bs(2) split ha have dj: "set bs \<inter> {h} = {}" by auto
    from r(5) have fr: "node p' j = node p j" if "j \<notin> {h}" "node p j \<noteq> None" for j
      using that by simp
    show ?thesis by (rule chain_frame_except [OF bs(1) fr dj])
  qed
  from consistent_step [OF inv h as fs r(2) r(3) sets disj' size frame]
  have "consistent (p', hand_over L h (node_next n))" by blast
  with r(1) show ?thesis by blast
qed

lemma consistent_free_list:
  assumes inv: "consistent (p, L)" and h: "is_empty h \<or> h \<in> L"
  shows "\<exists>r p'. free_list p h = Some (Returns r p') \<and> consistent (p', hand_over L h r)"
proof (cases "is_empty h")
  case True
  then have "free_list p h = Some (Returns h p)" by (simp add: free_list_def)
  with consistent_noop [OF inv True] show ?thesis by simp
next
  case False
  with h have hL: "h \<in> L" by simp
  from consistentD(1) [OF inv] obtain fs where fs: "chain p (free_node_list p) fs" by blast
  from consistentD(2) [OF inv hL] fs obtain as where
    as: "chain p h as" and ne: "as \<noteq> []" and disj: "set as \<inter> set fs = {}"
    by blast
  from free_list_chains [OF as ne] fs disj obtain p' where
    r: "free_list p h = Some (Returns pool_end p')" "pool_size p' = pool_size p"
      "\<forall>j. j \<noteq> last as \<longrightarrow> node p' j = node p j"
      "chain p' (free_node_list p') (as @ fs)"
    by blast
  have e: "chain p' pool_end []" by simp
  have sets: "set [] \<union> set (as @ fs) = set as \<union> set fs \<union> {pool_size p <.. pool_size p'}"
    using r(2) by auto
  have disj': "set [] \<inter> set (as @ fs) = {}" by simp
  have size: "pool_size p \<le> pool_size p'" using r(2) by simp
  have frame: "chain p' g bs" if bs: "chain p g bs" "set bs \<inter> (set as \<union> set fs) = {}" for g bs
  proof -
    from bs(2) last_in_set [OF ne] have dj: "set bs \<inter> {last as} = {}" by auto
    from r(3) have fr: "node p' j = node p j" if "j \<notin> {last as}" "node p j \<noteq> None" for j
      using that by simp
    show ?thesis by (rule chain_frame_except [OF bs(1) fr dj])
  qed
  from consistent_step [OF inv h as fs e r(4) sets disj' size frame]
  have "consistent (p', hand_over L h pool_end)" by blast
  with r(1) show ?thesis by blast
qed

lemma consistent_value_write:
  assumes inv: "consistent (p, L)"
  shows "\<exists>p'. (value_write p h v = Returns () p' \<or> value_write p h v = Throws invalid_argument p')
     \<and> consistent (p', L)"
proof (cases "check_index2 p h")
  case (Some e)
  then have "value_write p h v = Throws invalid_argument p"
    by (cases e) (simp add: value_write_def)
  with inv show ?thesis by blast
next
  case None
  then have hr: "0 < h \<and> h \<le> pool_size p" by (simp add: check_index2_passes)
  then obtain n where n: "node p h = Some n" by (auto simp: node_in_range)
  let ?p' = "set_node p h (n\<lparr>node_value := v\<rparr>)"
  from None n have vw: "value_write p h v = Returns () ?p'" by (simp add: value_write_def)
  have same: "map_option node_next (node ?p' a) = map_option node_next (node p a)" for a
    using hr n by (simp add: node_set_node)
  have frame: "chain ?p' g bs" if "chain p g bs" for g bs
    using that unfolding chain_def by (rule path_frame) (simp add: same)
  from consistentD(1) [OF inv] obtain fs where fs: "chain p (free_node_list p) fs" by blast
  have e: "is_empty pool_end \<or> pool_end \<in> L" by (simp add: is_empty_def)
  have c0: "chain p pool_end []" "chain ?p' pool_end []" by simp_all
  have fs': "chain ?p' (free_node_list ?p') fs" using frame [OF fs] by simp
  have sets: "set [] \<union> set fs = set [] \<union> set fs \<union> {pool_size p <.. pool_size ?p'}" by simp
  have disj: "set [] \<inter> set fs = {}" by simp
  have size: "pool_size p \<le> pool_size ?p'" by simp
  from consistent_step [OF inv e c0(1) fs c0(2) fs' sets disj size frame]
  have "consistent (?p', hand_over L pool_end pool_end)" by blast
  moreover from inv have "pool_end \<notin> L" by (simp add: consistent_def Let_def)
  then have "hand_over L pool_end pool_end = L" by (auto simp: hand_over_def is_empty_def)
  ultimately show ?thesis using vw by auto
qed

lemma exec_consistent:
  assumes inv: "consistent s" and d: "disciplined (snd s) c"
  shows "\<exists>s'. exec s c = Some s' \<and> consistent s'"
proof (cases s)
  case (Pair p L)
  with inv d have inv': "consistent (p, L)" and d': "disciplined L c" by simp_all
  show ?thesis
  proof (cases c)
    case (Push_front v h)
    with d' have "is_empty h \<or> h \<in> L" by simp
    from consistent_push_front [OF inv' this, of v] Pair Push_front show ?thesis by auto
  next
    case (Push_back v h)
    with d' have "is_empty h \<or> h \<in> L" by simp
    from consistent_push_back [OF inv' this, of v] Pair Push_back show ?thesis by auto
  next
    case (Free h)
    with d' have "is_empty h \<or> h \<in> L" by simp
    from consistent_free [OF inv' this] Pair Free show ?thesis by auto
  next
    case (Free_list h)
    with d' have "is_empty h \<or> h \<in> L" by simp
    from consistent_free_list [OF inv' this] Pair Free_list show ?thesis by auto
  next
    case (Value_write h v)
    from consistent_value_write [OF inv', of h v] Pair Value_write show ?thesis by auto
  next
    case (Next_write h x)
    with d' show ?thesis by simp
  qed
qed

lemma run_consistent:
  "consistent s \<Longrightarrow> disciplined_run s cs \<Longrightarrow> \<exists>s'. run s cs = Some s' \<and> consistent s'"
proof (induction cs arbitrary: s)
  case Nil
  then show ?case by simp
next
  case (Cons c cs)
  from Cons.prems(2) have d: "disciplined (snd s) c" by simp
  from exec_consistent [OF Cons.prems(1) d] obtain s1 where
    s1: "exec s c = Some s1" "consistent s1"
    by blast
  with Cons.prems(2) have "disciplined_run s1 cs" by simp
  from Cons.IH [OF s1(2) this] s1(1) show ?case by simp
qed

lemma consistent_init: "consistent (list_pool_init, {})"
  by (simp add: consistent_def Let_def list_pool_init_def new_list_def proper_def pool_size_def
      free_members_def reachable_def)

lemma consistent_partitioned: "consistent s \<Longrightarrow> partitioned s"
  unfolding consistent_def partitioned_def Let_def by blast

text \<open>
  Claim C9 says that in every pool state reachable by the public operations each index of
  the store is on a list the caller holds or on the free chain, and never on both. After
  \<open>push_front(5, 0)\<close>, which returns 1, and \<open>push_front(6, 1)\<close>, which returns 2, the call
  \<open>free(1)\<close> passes a handle that is in range but no longer a head: node 1 goes on the
  free chain and is still the second node of the list with head 2, which was never freed.
\<close>

theorem shared_node_counterexample:
  "run (list_pool_init, {}) [Push_front (5::nat) 0, Push_front 6 1, Free 1] =
     Some (\<lparr>pool = [\<lparr>node_value = 5, node_next = 0\<rparr>, \<lparr>node_value = 6, node_next = 1\<rparr>],
             free_node_list = 1\<rparr>, {2}) \<and>
   1 \<in> reachable \<lparr>pool = [\<lparr>node_value = (5::nat), node_next = 0\<rparr>,
                          \<lparr>node_value = 6, node_next = 1\<rparr>], free_node_list = 1\<rparr> 2 \<and>
   1 \<in> free_members \<lparr>pool = [\<lparr>node_value = (5::nat), node_next = 0\<rparr>,
                          \<lparr>node_value = 6, node_next = 1\<rparr>], free_node_list = 1\<rparr> \<and>
   \<not> partitioned (\<lparr>pool = [\<lparr>node_value = (5::nat), node_next = 0\<rparr>,
                          \<lparr>node_value = 6, node_next = 1\<rparr>], free_node_list = 1\<rparr>, {2})"
  by code_simp

text \<open>
  Claim C9 as amended: in every pool state reached from a fresh pool by disciplined calls
  (each \<open>push_front\<close>, \<open>push_back\<close>, \<open>free\<close> and \<open>free_list\<close> is given the end index or
  the current head of a list the caller holds, values may be assigned anywhere, and
  nothing is assigned through \<open>next\<close>), every call returns or throws, and each index in
  \<open>[1, size()]\<close> is reachable from the head of exactly one held list or is on the free
  chain, and never both.
\<close>

theorem disciplined_partition:
  "disciplined_run (list_pool_init, {}) cs \<Longrightarrow>
     \<exists>s. run (list_pool_init, {}) cs = Some s \<and> partitioned s"
proof -
  assume "disciplined_run (list_pool_init, {}) cs"
  with consistent_init obtain s where "run (list_pool_init, {}) cs = Some s" "consistent s"
    using run_consistent by blast
  then show ?thesis by (auto intro: consistent_partitioned)
qed

theorem disciplined_partition_witness:
  "disciplined_run (list_pool_init, {})
     [Push_front (5::nat) 0, Push_back 6 1, Free 1, Push_front 7 0, Value_write 2 9] \<and>
   (\<exists>s. run (list_pool_init, {})
          [Push_front (5::nat) 0, Push_back 6 1, Free 1, Push_front 7 0, Value_write 2 9] =
        Some s \<and> partitioned s)"
proof -
  have d: "disciplined_run (list_pool_init, {})
     [Push_front (5::nat) 0, Push_back 6 1, Free 1, Push_front 7 0, Value_write 2 9]"
    by code_simp
  from d disciplined_partition [OF d] show ?thesis by (rule conjI)
qed

end
